theory Spec2Isabelle
  imports Main "HOL-Library.Word"
begin

unbundle bit_operations_syntax

section \<open>Errors\<close>

text \<open>
  The failures of the program, as values. \<open>OutOfRange\<close> is the failed index check of the
  two-dimensional array behind a grid, \<open>LogicError\<close> is the \<^verbatim>\<open>std::logic_error\<close> thrown by
  the operations of a puzzle that was never loaded, \<open>InvalidArgument\<close> and
  \<open>StoiOutOfRange\<close> are the \<^verbatim>\<open>std::invalid_argument\<close> and the \<^verbatim>\<open>std::out_of_range\<close> that
  \<^verbatim>\<open>std::stoi\<close> throws.
\<close>

datatype error = OutOfRange | LogicError | InvalidArgument | StoiOutOfRange

section \<open>Grid (grid.h, grid.cpp)\<close>

text \<open>
  A grid is a square two-dimensional array of \<^verbatim>\<open>int\<close> together with its side length.
  The array is a list of rows; its extents are the lengths of the lists.
\<close>

record Grid =
  matrix :: "int list list"
  dim :: nat

text \<open>
  Modelled from the spec: the index operator of \<^verbatim>\<open>boost::multi_array\<close>, which is not part of
  the sources. The spec says that a read or a write fails with OutOfRange when an index is
  not below the extent; inside the extents the element is read or written.
\<close>

definition multi_array_read :: "int list list \<Rightarrow> nat \<Rightarrow> nat \<Rightarrow> error + int" where
  "multi_array_read m y x =
     (if y < length m \<and> x < length (m ! y) then Inr (m ! y ! x) else Inl OutOfRange)"

definition multi_array_write :: "int list list \<Rightarrow> nat \<Rightarrow> nat \<Rightarrow> int \<Rightarrow> error + int list list" where
  "multi_array_write m y x i =
     (if y < length m \<and> x < length (m ! y) then Inr (m[y := (m ! y)[x := i]])
      else Inl OutOfRange)"

text \<open>\<^verbatim>\<open>Grid::Grid(n)\<close>: an \<open>n\<close> by \<open>n\<close> array of value-initialised elements.\<close>

definition Grid_new :: "nat \<Rightarrow> Grid" where
  "Grid_new k = \<lparr>matrix = replicate k (replicate k 0), dim = k\<rparr>"

text \<open>\<^verbatim>\<open>Grid::get\<close> returns \<^verbatim>\<open>matrix[y][x]\<close>; \<^verbatim>\<open>Grid::set\<close> assigns it.\<close>

definition Grid_get :: "Grid \<Rightarrow> nat \<Rightarrow> nat \<Rightarrow> error + int" where
  "Grid_get g x y = multi_array_read (matrix g) y x"

definition Grid_set :: "Grid \<Rightarrow> nat \<Rightarrow> nat \<Rightarrow> int \<Rightarrow> error + Grid" where
  "Grid_set g x y i =
     (case multi_array_write (matrix g) y x i of
        Inl e \<Rightarrow> Inl e
      | Inr m \<Rightarrow> Inr (g\<lparr>matrix := m\<rparr>))"

definition Grid_n :: "Grid \<Rightarrow> nat" where
  "Grid_n g = dim g"

text \<open>
  \<^verbatim>\<open>Grid::reset(n)\<close> resizes the array to \<open>n\<close> by \<open>n\<close>: elements inside both the old and
  the new extents are kept, the others are value-initialised.
\<close>

definition Grid_reset :: "Grid \<Rightarrow> nat \<Rightarrow> Grid" where
  "Grid_reset g k =
     \<lparr>matrix = map (\<lambda>y. map (\<lambda>x. case multi_array_read (matrix g) y x of
                                   Inr v \<Rightarrow> v | Inl e \<Rightarrow> 0) [0..<k]) [0..<k],
      dim = k\<rparr>"

text \<open>
  The extents of the array and the stored side length agree in every grid the program
  builds: the constructor and \<open>Grid_reset\<close> establish it, \<open>Grid_set\<close> keeps it.
\<close>

definition grid_inv :: "Grid \<Rightarrow> bool" where
  "grid_inv g \<longleftrightarrow> length (matrix g) = dim g \<and> list_all (\<lambda>r. length r = dim g) (matrix g)"

text \<open>
  The validator and the search read and write only inside the extents (they index below the
  side length of a grid whose side is a perfect square), so the failed index check is not
  threaded through them: \<open>cell\<close> is the element read and \<open>put\<close> the grid written
  (lemmas \<open>cell_in_range\<close>, \<open>put_in_range\<close> and \<open>block_reads_in_range\<close> below). Outside
  the extents, where the program would have stopped, \<open>cell\<close> is 0 and \<open>put\<close> changes
  nothing.
\<close>

definition cell :: "Grid \<Rightarrow> nat \<Rightarrow> nat \<Rightarrow> int" where
  "cell g x y = (case Grid_get g x y of Inr v \<Rightarrow> v | Inl e \<Rightarrow> 0)"

definition put :: "Grid \<Rightarrow> nat \<Rightarrow> nat \<Rightarrow> int \<Rightarrow> Grid" where
  "put g x y i = (case Grid_set g x y i of Inr g' \<Rightarrow> g' | Inl e \<Rightarrow> g)"

section \<open>Validator (validator.cpp)\<close>

text \<open>
  The masks are \<^verbatim>\<open>std::uint_fast64_t\<close>, 64 bits wide. The bit of a value is written
  \<^verbatim>\<open>1 << (a - 1)\<close> and the full mask \<^verbatim>\<open>(1 << n) - 1\<close>: the left operand is the literal
  \<^verbatim>\<open>1\<close> of type \<^verbatim>\<open>int\<close>, so the shift is a 32-bit shift, and its result is converted to
  64 bits by sign extension where it meets a mask. A shift count outside 0..31 is not
  defined by the language; the model takes the count modulo 32, which is what the shift
  instructions of x86-64 and AArch64 do with a 32-bit operand.
\<close>

definition shl_int :: "int \<Rightarrow> 32 word" where
  "shl_int k = push_bit (nat (k mod 32)) 1"

definition color_bit :: "int \<Rightarrow> 64 word" where
  "color_bit a = scast (shl_int (a - 1))"

definition valid_mask_of :: "nat \<Rightarrow> 64 word" where
  "valid_mask_of k = scast (shl_int (int k) - 1)"

text \<open>\<^verbatim>\<open>std::size_t(sqrt(n))\<close> and \<^verbatim>\<open>std::size_t(sqrt(n) + 0.5)\<close>.\<close>

fun isqrt :: "nat \<Rightarrow> nat" where
  "isqrt 0 = 0"
| "isqrt (Suc k) = (let r = isqrt k in if (r + 1) * (r + 1) \<le> Suc k then r + 1 else r)"

definition n_root :: "nat \<Rightarrow> nat" where
  "n_root k = (let r = isqrt k in if k \<le> r * r + r then r else r + 1)"

text \<open>The elements a row, a column and a block loop read, in the order of the loop.\<close>

definition row_cells :: "Grid \<Rightarrow> nat \<Rightarrow> int list" where
  "row_cells g y = map (\<lambda>x. cell g x y) [0..<Grid_n g]"

definition column_cells :: "Grid \<Rightarrow> nat \<Rightarrow> int list" where
  "column_cells g x = map (\<lambda>y. cell g x y) [0..<Grid_n g]"

definition block_cells :: "Grid \<Rightarrow> nat \<Rightarrow> nat \<Rightarrow> int list" where
  "block_cells g x y =
     concat (map (\<lambda>y_off. map (\<lambda>x_off. cell g (x + x_off) (y + y_off))
                    [0..<n_root (Grid_n g)]) [0..<n_root (Grid_n g)])"

text \<open>
  The loop of \<^verbatim>\<open>is_good_row\<close>, \<^verbatim>\<open>is_good_column\<close> and \<^verbatim>\<open>is_good_block\<close>: reject an
  undetermined element or one whose bit is in the mask already, else add the bit; at the
  end the mask must be the full mask.
\<close>

fun good_loop :: "64 word \<Rightarrow> 64 word \<Rightarrow> int list \<Rightarrow> bool" where
  "good_loop valid_mask msk [] = (msk = valid_mask)"
| "good_loop valid_mask msk (a # as) =
     (if a = -1 \<or> (msk AND color_bit a) \<noteq> 0 then False
      else good_loop valid_mask (msk OR color_bit a) as)"

definition is_good_row :: "Grid \<Rightarrow> nat \<Rightarrow> bool" where
  "is_good_row g y = good_loop (valid_mask_of (Grid_n g)) 0 (row_cells g y)"

definition is_good_column :: "Grid \<Rightarrow> nat \<Rightarrow> bool" where
  "is_good_column g x = good_loop (valid_mask_of (Grid_n g)) 0 (column_cells g x)"

definition is_good_block :: "Grid \<Rightarrow> nat \<Rightarrow> nat \<Rightarrow> bool" where
  "is_good_block g x y = good_loop (valid_mask_of (Grid_n g)) 0 (block_cells g x y)"

definition is_good_board :: "Grid \<Rightarrow> bool" where
  "is_good_board g =
     (list_all (\<lambda>y. is_good_row g y) [0..<Grid_n g]
      \<and> list_all (\<lambda>x. is_good_column g x) [0..<Grid_n g]
      \<and> list_all (\<lambda>x. list_all (\<lambda>y. is_good_block g (x * n_root (Grid_n g))
                                          (y * n_root (Grid_n g)))
                     [0..<n_root (Grid_n g)]) [0..<n_root (Grid_n g)])"

text \<open>The loop of \<^verbatim>\<open>row_colors\<close>, \<^verbatim>\<open>column_colors\<close> and \<^verbatim>\<open>block_colors\<close>.\<close>

fun colors_loop :: "64 word \<Rightarrow> int list \<Rightarrow> 64 word" where
  "colors_loop msk [] = msk"
| "colors_loop msk (a # as) =
     (if a \<noteq> -1 then colors_loop (msk OR color_bit a) as else colors_loop msk as)"

definition row_colors :: "Grid \<Rightarrow> nat \<Rightarrow> 64 word" where
  "row_colors g y = colors_loop 0 (row_cells g y)"

definition column_colors :: "Grid \<Rightarrow> nat \<Rightarrow> 64 word" where
  "column_colors g x = colors_loop 0 (column_cells g x)"

definition block_colors :: "Grid \<Rightarrow> nat \<Rightarrow> nat \<Rightarrow> 64 word" where
  "block_colors g x y = colors_loop 0 (block_cells g x y)"

definition good_colors :: "Grid \<Rightarrow> nat \<Rightarrow> nat \<Rightarrow> 64 word" where
  "good_colors g x y =
     (let r = n_root (Grid_n g);
          row_mask = row_colors g y;
          col_mask = column_colors g x;
          block_mask = block_colors g ((x div r) * r) ((y div r) * r)
      in (NOT (row_mask OR col_mask OR block_mask)) AND valid_mask_of (Grid_n g))"

text \<open>
  The loop of \<^verbatim>\<open>is_good_partial_row\<close>, \<^verbatim>\<open>is_good_partial_column\<close> and
  \<^verbatim>\<open>is_good_partial_block\<close>: undetermined elements are skipped.
\<close>

fun partial_loop :: "64 word \<Rightarrow> int list \<Rightarrow> bool" where
  "partial_loop msk [] = True"
| "partial_loop msk (a # as) =
     (if a \<noteq> -1 then
        (if (msk AND color_bit a) \<noteq> 0 then False
         else partial_loop (msk OR color_bit a) as)
      else partial_loop msk as)"

definition is_good_partial_row :: "Grid \<Rightarrow> nat \<Rightarrow> bool" where
  "is_good_partial_row g y = partial_loop 0 (row_cells g y)"

definition is_good_partial_column :: "Grid \<Rightarrow> nat \<Rightarrow> bool" where
  "is_good_partial_column g x = partial_loop 0 (column_cells g x)"

definition is_good_partial_block :: "Grid \<Rightarrow> nat \<Rightarrow> nat \<Rightarrow> bool" where
  "is_good_partial_block g x y = partial_loop 0 (block_cells g x y)"

definition is_good_partial_board :: "Grid \<Rightarrow> bool" where
  "is_good_partial_board g =
     (list_all (\<lambda>y. is_good_partial_row g y) [0..<Grid_n g]
      \<and> list_all (\<lambda>x. is_good_partial_column g x) [0..<Grid_n g]
      \<and> list_all (\<lambda>x. list_all (\<lambda>y. is_good_partial_block g (x * n_root (Grid_n g))
                                          (y * n_root (Grid_n g)))
                     [0..<n_root (Grid_n g)]) [0..<n_root (Grid_n g)])"

section \<open>Search (sudoku.cpp)\<close>

text \<open>
  \<^verbatim>\<open>find_unknown\<close> scans in row-major order from \<open>(cur_x, cur_y)\<close>: the rest of row
  \<open>cur_y\<close>, then every later row from its first column. \<open>scan_row\<close> is the inner loop.
\<close>

function scan_row :: "Grid \<Rightarrow> nat \<Rightarrow> nat \<Rightarrow> (nat \<times> nat) option" where
  "scan_row cur_grid x y =
     (if x < Grid_n cur_grid then
        (if cell cur_grid x y = -1 then Some (x, y) else scan_row cur_grid (Suc x) y)
      else None)"
  by pat_completeness auto
termination
  by (relation "measure (\<lambda>(g, x, y). Grid_n g - x)") auto

function find_unknown :: "Grid \<Rightarrow> nat \<Rightarrow> nat \<Rightarrow> (nat \<times> nat) option" where
  "find_unknown cur_grid cur_x cur_y =
     (if cur_y < Grid_n cur_grid then
        (case scan_row cur_grid cur_x cur_y of
           Some p \<Rightarrow> Some p
         | None \<Rightarrow> find_unknown cur_grid 0 (Suc cur_y))
      else None)"
  by pat_completeness auto
termination
  by (relation "measure (\<lambda>(g, x, y). Grid_n g - y)") auto

declare scan_row.simps [simp del] find_unknown.simps [simp del]

text \<open>The number of undetermined elements of a grid; every recursive call has one less.\<close>

definition unknowns :: "Grid \<Rightarrow> nat" where
  "unknowns g = (\<Sum>r\<leftarrow>matrix g. length (filter (\<lambda>a. a = -1) r))"

lemma cell_eq:
  "cell g x y =
     (if y < length (matrix g) \<and> x < length (matrix g ! y) then matrix g ! y ! x else 0)"
  by (simp add: cell_def Grid_get_def multi_array_read_def)

lemma put_eq:
  "put g x y i =
     (if y < length (matrix g) \<and> x < length (matrix g ! y)
      then g\<lparr>matrix := (matrix g)[y := (matrix g ! y)[x := i]]\<rparr> else g)"
  by (simp add: put_def Grid_set_def multi_array_write_def)

lemma filter_update_count:
  "x < length r \<Longrightarrow>
   length (filter P (r[x := v])) + (if P (r ! x) then 1 else 0)
     = length (filter P r) + (if P v then 1 else 0)"
proof (induction r arbitrary: x)
  case Nil then show ?case by simp
next
  case (Cons a r)
  then show ?case by (cases x) auto
qed

lemma sum_list_map_update:
  fixes f :: "'a \<Rightarrow> nat"
  shows "k < length xs \<Longrightarrow>
    sum_list (map f (xs[k := x])) + f (xs ! k) = sum_list (map f xs) + f x"
proof (induction xs arbitrary: k)
  case Nil then show ?case by simp
next
  case (Cons a xs)
  then show ?case by (cases k) auto
qed

lemma unknowns_put:
  assumes "y < length (matrix g)" "x < length (matrix g ! y)"
  shows "unknowns (put g x y v) + (if cell g x y = -1 then 1 else 0)
         = unknowns g + (if v = -1 then 1 else 0)"
proof -
  let ?c = "\<lambda>r. length (filter (\<lambda>a. a = (-1::int)) r)"
  have "sum_list (map ?c ((matrix g)[y := (matrix g ! y)[x := v]])) + ?c (matrix g ! y)
        = sum_list (map ?c (matrix g)) + ?c ((matrix g ! y)[x := v])"
    using assms(1) by (rule sum_list_map_update)
  moreover have "?c ((matrix g ! y)[x := v]) + (if matrix g ! y ! x = -1 then 1 else 0)
        = ?c (matrix g ! y) + (if v = -1 then 1 else 0)"
    using assms(2) by (rule filter_update_count)
  ultimately show ?thesis using assms
    by (simp add: unknowns_def put_eq cell_eq)
qed

lemma unknowns_put_same:
  "v \<noteq> -1 \<Longrightarrow> w \<noteq> -1 \<Longrightarrow> unknowns (put g x y v) = unknowns (put g x y w)"
proof (cases "y < length (matrix g) \<and> x < length (matrix g ! y)")
  case True
  assume "v \<noteq> -1" "w \<noteq> -1"
  then show ?thesis
    using unknowns_put [of y g x v] unknowns_put [of y g x w] True by simp
next
  case False
  then show ?thesis by (auto simp: put_eq)
qed

lemma put_put: "put (put g x y v) x y w = put g x y w"
  by (auto simp: put_eq nth_list_update)

lemma scan_row_Some:
  "scan_row g x y = Some (ux, uy) \<Longrightarrow>
     uy = y \<and> x \<le> ux \<and> ux < Grid_n g \<and> cell g ux uy = -1
     \<and> (\<forall>x'. x \<le> x' \<and> x' < ux \<longrightarrow> cell g x' y \<noteq> -1)"
proof (induction g x y rule: scan_row.induct)
  case (1 cur_grid x y)
  show ?case
  proof (cases "x < Grid_n cur_grid \<and> cell cur_grid x y \<noteq> -1")
    case True
    then have "scan_row cur_grid (Suc x) y = Some (ux, uy)"
      using "1.prems" by (simp add: scan_row.simps [of cur_grid x y])
    then have ih: "uy = y \<and> Suc x \<le> ux \<and> ux < Grid_n cur_grid \<and> cell cur_grid ux uy = -1
       \<and> (\<forall>x'. Suc x \<le> x' \<and> x' < ux \<longrightarrow> cell cur_grid x' y \<noteq> -1)"
      using "1.IH" True by blast
    have "\<forall>x'. x \<le> x' \<and> x' < ux \<longrightarrow> cell cur_grid x' y \<noteq> -1"
    proof (intro allI impI)
      fix x' assume "x \<le> x' \<and> x' < ux"
      then show "cell cur_grid x' y \<noteq> -1"
        using ih True by (cases "x' = x") auto
    qed
    then show ?thesis using ih by auto
  next
    case False
    then show ?thesis using "1.prems"
      by (auto simp: scan_row.simps [of cur_grid x y] split: if_splits)
  qed
qed

lemma scan_row_None:
  "scan_row g x y = None \<Longrightarrow> x \<le> x' \<Longrightarrow> x' < Grid_n g \<Longrightarrow> cell g x' y \<noteq> -1"
proof (induction g x y rule: scan_row.induct)
  case (1 cur_grid x y)
  show ?case
  proof (cases "x' = x")
    case True
    then show ?thesis using "1.prems"
      by (auto simp: scan_row.simps [of cur_grid x y] split: if_splits)
  next
    case False
    then have "scan_row cur_grid (Suc x) y = None \<and> x < Grid_n cur_grid
        \<and> cell cur_grid x y \<noteq> -1"
      using "1.prems" by (auto simp: scan_row.simps [of cur_grid x y] split: if_splits)
    then show ?thesis using "1.IH" "1.prems" False by auto
  qed
qed

lemma find_unknown_Some:
  "find_unknown g cx cy = Some (ux, uy) \<Longrightarrow>
     cell g ux uy = -1 \<and> ux < Grid_n g \<and> uy < Grid_n g"
proof (induction g cx cy rule: find_unknown.induct)
  case (1 cur_grid cur_x cur_y)
  show ?case
  proof (cases "scan_row cur_grid cur_x cur_y")
    case None
    then show ?thesis using 1
      by (auto simp: find_unknown.simps [of cur_grid cur_x cur_y] split: if_splits)
  next
    case (Some p)
    then have "cur_y < Grid_n cur_grid \<and> scan_row cur_grid cur_x cur_y = Some (ux, uy)"
      using "1.prems"
      by (auto simp: find_unknown.simps [of cur_grid cur_x cur_y] split: if_splits)
    then show ?thesis using scan_row_Some [of cur_grid cur_x cur_y ux uy] by auto
  qed
qed

lemma unknowns_put_found:
  assumes "find_unknown g cx cy = Some (ux, uy)"
  shows "unknowns (put g ux uy 0) < unknowns g"
proof -
  have c: "cell g ux uy = -1" using find_unknown_Some [OF assms] by simp
  then have r: "uy < length (matrix g) \<and> ux < length (matrix g ! uy)"
    by (auto simp: cell_eq split: if_splits)
  show ?thesis using unknowns_put [of uy g ux 0] r c by simp
qed

text \<open>
  \<^verbatim>\<open>color_node\<close>. The grid is passed by reference: the second component of the result is
  the grid of the caller when the call returns. \<open>color_loop\<close> is the loop over the colours
  \<open>i\<close>; \<open>new_grid\<close> is cloned once before the loop, written at the undetermined element in
  each round, and handed to the recursive call, which may overwrite it.
\<close>

function color_node :: "Grid \<Rightarrow> nat \<Rightarrow> nat \<Rightarrow> bool \<times> Grid"
  and color_loop :: "Grid \<Rightarrow> 64 word \<Rightarrow> Grid \<Rightarrow> nat \<Rightarrow> nat \<Rightarrow> nat \<Rightarrow> bool \<times> Grid"
where
  "color_node cur_grid cur_x cur_y =
     (case find_unknown cur_grid cur_x cur_y of
        Some (unknown_x, unknown_y) \<Rightarrow>
          color_loop cur_grid (good_colors cur_grid unknown_x unknown_y) cur_grid
            unknown_x unknown_y 1
      | None \<Rightarrow> (is_good_board cur_grid, cur_grid))"
| "color_loop cur_grid colors new_grid unknown_x unknown_y i =
     (if i \<le> Grid_n cur_grid then
        (if (colors AND color_bit (int i)) \<noteq> 0 then
           (case color_node (put new_grid unknown_x unknown_y (int i)) unknown_x unknown_y of
              (True, solved) \<Rightarrow> (True, solved)
            | (False, new_grid') \<Rightarrow>
                color_loop cur_grid colors new_grid' unknown_x unknown_y (Suc i))
         else color_loop cur_grid colors new_grid unknown_x unknown_y (Suc i))
      else (False, cur_grid))"
  by pat_completeness auto

lemma color_frame_partial:
  "color_node_color_loop_dom (Inl (g, cx, cy)) \<Longrightarrow>
     \<not> fst (color_node g cx cy) \<Longrightarrow> snd (color_node g cx cy) = g"
  "color_node_color_loop_dom (Inr (cur, colors, ng, ux, uy, i)) \<Longrightarrow>
     \<not> fst (color_loop cur colors ng ux uy i) \<Longrightarrow> snd (color_loop cur colors ng ux uy i) = cur"
proof (induction g cx cy and cur colors ng ux uy i rule: color_node_color_loop.pinduct)
  case (1 cur_grid cur_x cur_y)
  then show ?case
    by (auto simp: color_node.psimps split: option.splits)
next
  case (2 cur_grid colors new_grid unknown_x unknown_y i)
  then show ?case
    by (auto simp: color_loop.psimps split: if_splits prod.splits bool.splits)
qed

termination color_node
proof (relation "inv_image (less_than <*lex*> less_than)
    (\<lambda>a. case a of
       Inl (g, cx, cy) \<Rightarrow> (unknowns g, 0)
     | Inr (cur, colors, ng, ux, uy, i) \<Rightarrow>
         (unknowns (put ng ux uy 0), Suc (Suc (Grid_n cur) - i)))",
    goal_cases)
  case 1
  show ?case by auto
next
  case (2 cur_grid cur_x cur_y x2 x y)
  then show ?case using unknowns_put_found [of cur_grid cur_x cur_y x y] by simp
next
  case (3 cur_grid colors new_grid unknown_x unknown_y i)
  then show ?case
    using unknowns_put_same [of "int i" 0 new_grid unknown_x unknown_y] by simp
next
  case (4 cur_grid colors new_grid unknown_x unknown_y i x y)
  then have "y = put new_grid unknown_x unknown_y (int i)"
    using color_frame_partial(1) [of "put new_grid unknown_x unknown_y (int i)"
        unknown_x unknown_y]
    by (metis fst_conv snd_conv)
  then show ?case using 4 by (simp add: put_put)
next
  case (5 cur_grid colors new_grid unknown_x unknown_y i)
  then show ?case by simp
qed

declare color_node.simps [simp del] color_loop.simps [simp del]

text \<open>\<^verbatim>\<open>bruteforce_node\<close>: the same control structure, every colour is tried.\<close>

function bruteforce_node :: "Grid \<Rightarrow> nat \<Rightarrow> nat \<Rightarrow> bool \<times> Grid"
  and bruteforce_loop :: "Grid \<Rightarrow> Grid \<Rightarrow> nat \<Rightarrow> nat \<Rightarrow> nat \<Rightarrow> bool \<times> Grid"
where
  "bruteforce_node cur_grid cur_x cur_y =
     (case find_unknown cur_grid cur_x cur_y of
        Some (unknown_x, unknown_y) \<Rightarrow>
          bruteforce_loop cur_grid cur_grid unknown_x unknown_y 1
      | None \<Rightarrow> (is_good_board cur_grid, cur_grid))"
| "bruteforce_loop cur_grid new_grid unknown_x unknown_y i =
     (if i \<le> Grid_n cur_grid then
        (case bruteforce_node (put new_grid unknown_x unknown_y (int i)) unknown_x unknown_y of
           (True, solved) \<Rightarrow> (True, solved)
         | (False, new_grid') \<Rightarrow>
             bruteforce_loop cur_grid new_grid' unknown_x unknown_y (Suc i))
      else (False, cur_grid))"
  by pat_completeness auto

lemma bruteforce_frame_partial:
  "bruteforce_node_bruteforce_loop_dom (Inl (g, cx, cy)) \<Longrightarrow>
     \<not> fst (bruteforce_node g cx cy) \<Longrightarrow> snd (bruteforce_node g cx cy) = g"
  "bruteforce_node_bruteforce_loop_dom (Inr (cur, ng, ux, uy, i)) \<Longrightarrow>
     \<not> fst (bruteforce_loop cur ng ux uy i) \<Longrightarrow> snd (bruteforce_loop cur ng ux uy i) = cur"
proof (induction g cx cy and cur ng ux uy i rule: bruteforce_node_bruteforce_loop.pinduct)
  case (1 cur_grid cur_x cur_y)
  then show ?case
    by (auto simp: bruteforce_node.psimps split: option.splits)
next
  case (2 cur_grid new_grid unknown_x unknown_y i)
  then show ?case
    by (auto simp: bruteforce_loop.psimps split: if_splits prod.splits bool.splits)
qed

termination bruteforce_node
proof (relation "inv_image (less_than <*lex*> less_than)
    (\<lambda>a. case a of
       Inl (g, cx, cy) \<Rightarrow> (unknowns g, 0)
     | Inr (cur, ng, ux, uy, i) \<Rightarrow>
         (unknowns (put ng ux uy 0), Suc (Suc (Grid_n cur) - i)))",
    goal_cases)
  case 1
  show ?case by auto
next
  case (2 cur_grid cur_x cur_y x2 x y)
  then show ?case using unknowns_put_found [of cur_grid cur_x cur_y x y] by simp
next
  case (3 cur_grid new_grid unknown_x unknown_y i)
  then show ?case
    using unknowns_put_same [of "int i" 0 new_grid unknown_x unknown_y] by simp
next
  case (4 cur_grid new_grid unknown_x unknown_y i x y)
  then have "y = put new_grid unknown_x unknown_y (int i)"
    using bruteforce_frame_partial(1) [of "put new_grid unknown_x unknown_y (int i)"
        unknown_x unknown_y]
    by (metis fst_conv snd_conv)
  then show ?case using 4 by (simp add: put_put)
qed

declare bruteforce_node.simps [simp del] bruteforce_loop.simps [simp del]

text \<open>
  \<^verbatim>\<open>singular_decider\<close> returns 0 (no solution), 1 (one solution) or 2 (several). The
  \<^verbatim>\<open>switch\<close> on the result of the recursive call has no default: any other value leaves
  \<open>found_one\<close> as it is.
\<close>

function singular_decider :: "Grid \<Rightarrow> bool \<Rightarrow> nat \<Rightarrow> nat \<Rightarrow> int \<times> Grid"
  and singular_loop ::
    "Grid \<Rightarrow> 64 word \<Rightarrow> Grid \<Rightarrow> bool \<Rightarrow> nat \<Rightarrow> nat \<Rightarrow> nat \<Rightarrow> int \<times> Grid"
where
  "singular_decider cur_grid found_one cur_x cur_y =
     (case find_unknown cur_grid cur_x cur_y of
        Some (unknown_x, unknown_y) \<Rightarrow>
          singular_loop cur_grid (good_colors cur_grid unknown_x unknown_y) cur_grid
            found_one unknown_x unknown_y 1
      | None \<Rightarrow>
          (if is_good_board cur_grid then (if found_one then (2, cur_grid) else (1, cur_grid))
           else (0, cur_grid)))"
| "singular_loop cur_grid colors new_grid found_one unknown_x unknown_y i =
     (if i \<le> Grid_n cur_grid then
        (if (colors AND color_bit (int i)) \<noteq> 0 then
           (case singular_decider (put new_grid unknown_x unknown_y (int i)) found_one
                   unknown_x unknown_y of
              (r, new_grid') \<Rightarrow>
                if r = 0 then
                  singular_loop cur_grid colors new_grid' found_one unknown_x unknown_y (Suc i)
                else if r = 1 then
                  singular_loop cur_grid colors new_grid' True unknown_x unknown_y (Suc i)
                else if r = 2 then (2, cur_grid)
                else
                  singular_loop cur_grid colors new_grid' found_one unknown_x unknown_y (Suc i))
         else singular_loop cur_grid colors new_grid found_one unknown_x unknown_y (Suc i))
      else (if found_one then (1, cur_grid) else (0, cur_grid)))"
  by pat_completeness auto

lemma singular_frame_partial:
  "singular_decider_singular_loop_dom (Inl (g, f, cx, cy)) \<Longrightarrow>
     snd (singular_decider g f cx cy) = g"
  "singular_decider_singular_loop_dom (Inr (cur, colors, ng, f, ux, uy, i)) \<Longrightarrow>
     snd (singular_loop cur colors ng f ux uy i) = cur"
proof (induction g f cx cy and cur colors ng f ux uy i
    rule: singular_decider_singular_loop.pinduct)
  case (1 cur_grid found_one cur_x cur_y)
  then show ?case
    by (auto simp: singular_decider.psimps split: option.splits)
next
  case (2 cur_grid colors new_grid found_one unknown_x unknown_y i)
  then show ?case
    by (auto simp: singular_loop.psimps split: if_splits prod.splits)
qed

termination singular_decider
proof (relation "inv_image (less_than <*lex*> less_than)
    (\<lambda>a. case a of
       Inl (g, f, cx, cy) \<Rightarrow> (unknowns g, 0)
     | Inr (cur, colors, ng, f, ux, uy, i) \<Rightarrow>
         (unknowns (put ng ux uy 0), Suc (Suc (Grid_n cur) - i)))",
    goal_cases)
  case 1
  show ?case by auto
next
  case (2 cur_grid found_one cur_x cur_y x2 x y)
  then show ?case using unknowns_put_found [of cur_grid cur_x cur_y x y] by simp
next
  case (3 cur_grid colors new_grid found_one unknown_x unknown_y i)
  then show ?case
    using unknowns_put_same [of "int i" 0 new_grid unknown_x unknown_y] by simp
next
  case (4 cur_grid colors new_grid found_one unknown_x unknown_y i x y)
  then have "y = put new_grid unknown_x unknown_y (int i)"
    using singular_frame_partial(1) [of "put new_grid unknown_x unknown_y (int i)"
        found_one unknown_x unknown_y]
    by (metis snd_conv)
  then show ?case using 4 by (simp add: put_put)
next
  case (5 cur_grid colors new_grid found_one unknown_x unknown_y i x y)
  then have "y = put new_grid unknown_x unknown_y (int i)"
    using singular_frame_partial(1) [of "put new_grid unknown_x unknown_y (int i)"
        found_one unknown_x unknown_y]
    by (metis snd_conv)
  then show ?case using 5 by (simp add: put_put)
next
  case (6 cur_grid colors new_grid found_one unknown_x unknown_y i x y)
  then have "y = put new_grid unknown_x unknown_y (int i)"
    using singular_frame_partial(1) [of "put new_grid unknown_x unknown_y (int i)"
        found_one unknown_x unknown_y]
    by (metis snd_conv)
  then show ?case using 6 by (simp add: put_put)
next
  case (7 cur_grid colors new_grid found_one unknown_x unknown_y i)
  then show ?case by simp
qed

declare singular_decider.simps [simp del] singular_loop.simps [simp del]

section \<open>Text form (grid.cpp, sudoku.cpp)\<close>

text \<open>An \<^verbatim>\<open>int\<close> written to a stream: decimal digits, a minus sign before a negative one.\<close>

definition digit_char :: "nat \<Rightarrow> char" where
  "digit_char d = ''0123456789'' ! d"

function show_nat :: "nat \<Rightarrow> string" where
  "show_nat k = (if k < 10 then [digit_char k] else show_nat (k div 10) @ [digit_char (k mod 10)])"
  by pat_completeness auto
termination
  by (relation "measure (\<lambda>k. k)") auto

declare show_nat.simps [simp del]

definition show_int :: "int \<Rightarrow> string" where
  "show_int i = (if i < 0 then CHR ''-'' # show_nat (nat (- i)) else show_nat (nat i))"

definition newline :: char where
  "newline = CHR 0x0A"

text \<open>
  \<^verbatim>\<open>Grid::to_s\<close>: a line break before every row but the first, a space before every
  element of a row but the first.
\<close>

definition Grid_to_s :: "Grid \<Rightarrow> string" where
  "Grid_to_s g =
     concat (map (\<lambda>y. (if y \<noteq> 0 then [newline] else [])
                      @ concat (map (\<lambda>x. (if x \<noteq> 0 then '' '' else [])
                                          @ show_int (cell g x y)) [0..<dim g]))
               [0..<dim g])"

text \<open>\<^verbatim>\<open>boost::replace_all\<close>: every occurrence of \<open>search\<close>, from the left, is replaced.\<close>

function replace_all :: "string \<Rightarrow> string \<Rightarrow> string \<Rightarrow> string" where
  "replace_all input search format =
     (if input = [] \<or> search = [] then input
      else if take (length search) input = search
           then format @ replace_all (drop (length search) input) search format
           else hd input # replace_all (tl input) search format)"
  by pat_completeness auto
termination
  by (relation "measure (\<lambda>(input, search, format). length input)") auto

declare replace_all.simps [simp del]

section \<open>Sudoku (sudoku.h, sudoku.cpp)\<close>

record Sudoku =
  grid :: Grid
  status_ok :: bool

definition Sudoku_new :: Sudoku where
  "Sudoku_new = \<lparr>grid = Grid_new 0, status_ok = False\<rparr>"

definition validate :: "Sudoku \<Rightarrow> bool" where
  "validate s = is_good_partial_board (grid s)"

definition Sudoku_to_s :: "Sudoku \<Rightarrow> string" where
  "Sudoku_to_s s = replace_all (Grid_to_s (grid s)) ''-1'' ''?''"

text \<open>
  The operations below throw \<^verbatim>\<open>std::logic_error\<close> first of all when the puzzle was never
  loaded. \<open>print\<close> takes what the stream holds and returns what it holds afterwards; the
  others return the object as the call leaves it.
\<close>

definition print :: "Sudoku \<Rightarrow> string \<Rightarrow> error + string" where
  "print s out =
     (if \<not> status_ok s then Inl LogicError else Inr (out @ Sudoku_to_s s @ [newline]))"

definition solve_colorability_style :: "Sudoku \<Rightarrow> error + Sudoku" where
  "solve_colorability_style s =
     (if \<not> status_ok s then Inl LogicError
      else Inr (s\<lparr>grid := snd (color_node (grid s) 0 0)\<rparr>))"

definition solve_bruteforce_style :: "Sudoku \<Rightarrow> error + Sudoku" where
  "solve_bruteforce_style s =
     (if \<not> status_ok s then Inl LogicError
      else Inr (s\<lparr>grid := snd (bruteforce_node (grid s) 0 0)\<rparr>))"

definition singular :: "Sudoku \<Rightarrow> error + bool \<times> Sudoku" where
  "singular s =
     (if \<not> status_ok s then Inl LogicError
      else if validate s then
        (case singular_decider (grid s) False 0 0 of
           (r, g) \<Rightarrow> Inr (r = 1, s\<lparr>grid := g\<rparr>))
      else Inr (False, s))"

definition good :: "Sudoku \<Rightarrow> bool" where
  "good s = status_ok s"

section \<open>Loading a puzzle (sudoku.cpp)\<close>

text \<open>
  An input stream: the characters not yet read, and whether the stream is good. A
  stream that reached the end of its input is not good any more.
\<close>

record istream =
  rest :: string
  ok :: bool

definition stringstream :: "string \<Rightarrow> istream" where
  "stringstream s = \<lparr>rest = s, ok = True\<rparr>"

text \<open>
  \<^verbatim>\<open>std::getline(f, line)\<close>. On a stream that is not good nothing is read and \<open>line\<close>
  keeps its old contents. Otherwise \<open>line\<close> is erased and filled up to the next line
  break, which is consumed, or up to the end of the input.
\<close>

definition getline :: "istream \<Rightarrow> string \<Rightarrow> istream \<times> string" where
  "getline f line =
     (if \<not> ok f then (f, line)
      else (let l = takeWhile (\<lambda>c. c \<noteq> newline) (rest f);
                r = dropWhile (\<lambda>c. c \<noteq> newline) (rest f)
            in if r = [] then (\<lparr>rest = [], ok = False\<rparr>, l)
               else (\<lparr>rest = tl r, ok = True\<rparr>, l)))"

text \<open>
  \<^verbatim>\<open>boost::split(tokens, line, boost::is_any_of(" "))\<close>: the pieces between the spaces,
  empty pieces included; an empty line has one empty piece.
\<close>

fun split :: "string \<Rightarrow> string list" where
  "split [] = [[]]"
| "split (c # cs) =
     (if c = CHR '' '' then [] # split cs
      else (case split cs of t # ts \<Rightarrow> (c # t) # ts | [] \<Rightarrow> [[c]]))"

text \<open>
  \<^verbatim>\<open>std::stoi(token)\<close>: leading white space is skipped, a sign is read, then decimal
  digits as far as they go; what follows the digits is ignored. Without a digit the call
  throws \<^verbatim>\<open>std::invalid_argument\<close>; a value that is not an \<^verbatim>\<open>int\<close> throws
  \<^verbatim>\<open>std::out_of_range\<close>.
\<close>

definition isspace :: "char \<Rightarrow> bool" where
  "isspace c \<longleftrightarrow> c \<in> set [CHR '' '', CHR 0x09, CHR 0x0A, CHR 0x0B, CHR 0x0C, CHR 0x0D]"

definition isdigit :: "char \<Rightarrow> bool" where
  "isdigit c \<longleftrightarrow> c \<in> set ''0123456789''"

definition digit_value :: "char \<Rightarrow> int" where
  "digit_value c = int (of_char c) - 48"

definition decimal :: "string \<Rightarrow> int" where
  "decimal ds = foldl (\<lambda>a c. 10 * a + digit_value c) 0 ds"

definition stoi :: "string \<Rightarrow> error + int" where
  "stoi token =
     (let s = dropWhile isspace token;
          negative = (s \<noteq> [] \<and> hd s = CHR ''-'');
          s' = (if s \<noteq> [] \<and> (hd s = CHR ''-'' \<or> hd s = CHR ''+'') then tl s else s);
          ds = takeWhile isdigit s'
      in if ds = [] then Inl InvalidArgument
         else (let v = (if negative then - decimal ds else decimal ds)
               in if v < - 2147483648 \<or> 2147483647 < v then Inl StoiOutOfRange
                  else Inr v))"

text \<open>
  \<^verbatim>\<open>insert_row\<close>, as a loop over \<open>x\<close>. Only \<^verbatim>\<open>std::invalid_argument\<close> is caught; the grid
  keeps the elements written before a failure.
\<close>

function insert_row_loop :: "Grid \<Rightarrow> string list \<Rightarrow> nat \<Rightarrow> nat \<Rightarrow> error + bool \<times> Grid" where
  "insert_row_loop g tokens y x =
     (if x < Grid_n g then
        (case stoi (tokens ! x) of
           Inr v \<Rightarrow>
             if v < 1 \<or> v > int (Grid_n g) then Inr (False, g)
             else insert_row_loop (put g x y v) tokens y (Suc x)
         | Inl InvalidArgument \<Rightarrow>
             if tokens ! x = ''?'' then insert_row_loop (put g x y (-1)) tokens y (Suc x)
             else Inr (False, g)
         | Inl e \<Rightarrow> Inl e)
      else Inr (True, g))"
  by pat_completeness auto
termination
  by (relation "measure (\<lambda>(g, tokens, y, x). Grid_n g - x)")
    (auto simp: put_eq Grid_n_def)

declare insert_row_loop.simps [simp del]

definition insert_row :: "Grid \<Rightarrow> string list \<Rightarrow> nat \<Rightarrow> error + bool \<times> Grid" where
  "insert_row g tokens y = insert_row_loop g tokens y 0"

text \<open>The loop of \<^verbatim>\<open>parse_puzzle\<close> over the rows after the first.\<close>

function parse_rows ::
  "Grid \<Rightarrow> istream \<Rightarrow> string \<Rightarrow> nat \<Rightarrow> nat \<Rightarrow> error + bool \<times> Grid" where
  "parse_rows g f line k y =
     (if y < k then
        (case getline f line of
           (f', line') \<Rightarrow>
             (let tokens = split line' in
              if length tokens \<noteq> k then Inr (False, g)
              else (case insert_row g tokens y of
                      Inl e \<Rightarrow> Inl e
                    | Inr (False, g') \<Rightarrow> Inr (False, g')
                    | Inr (True, g') \<Rightarrow> parse_rows g' f' line' k (Suc y))))
      else Inr (True, g))"
  by pat_completeness auto
termination
  by (relation "measure (\<lambda>(g, f, line, k, y). k - y)") auto

declare parse_rows.simps [simp del]

definition parse_puzzle :: "Sudoku \<Rightarrow> istream \<Rightarrow> error + bool \<times> Sudoku" where
  "parse_puzzle s f =
     (case getline f [] of
        (f', line) \<Rightarrow>
          (let tokens = split line; k = length tokens; n_sq = isqrt k in
           if k = 0 \<or> line = [] then Inr (False, s)
           else if n_sq * n_sq \<noteq> k \<and> (n_sq + 1) * (n_sq + 1) \<noteq> k then Inr (False, s)
           else if k > 64 then Inr (False, s)
           else (case insert_row (Grid_reset (grid s) k) tokens 0 of
                   Inl e \<Rightarrow> Inl e
                 | Inr (False, g) \<Rightarrow> Inr (False, s\<lparr>grid := g\<rparr>)
                 | Inr (True, g) \<Rightarrow>
                     (case parse_rows g f' line k 1 of
                        Inl e \<Rightarrow> Inl e
                      | Inr (b, g') \<Rightarrow> Inr (b, s\<lparr>grid := g'\<rparr>)))))"

definition read_puzzle_from_file :: "Sudoku \<Rightarrow> istream \<Rightarrow> error + bool \<times> Sudoku" where
  "read_puzzle_from_file s f =
     (case parse_puzzle s f of
        Inl e \<Rightarrow> Inl e
      | Inr (False, s') \<Rightarrow> Inr (False, s')
      | Inr (True, s') \<Rightarrow>
          if validate s' then Inr (True, s'\<lparr>status_ok := True\<rparr>) else Inr (False, s'))"

definition read_puzzle_from_string :: "Sudoku \<Rightarrow> string \<Rightarrow> error + bool \<times> Sudoku" where
  "read_puzzle_from_string s str =
     (case parse_puzzle s (stringstream str) of
        Inl e \<Rightarrow> Inl e
      | Inr (False, s') \<Rightarrow> Inr (False, s')
      | Inr (True, s') \<Rightarrow>
          if validate s' then Inr (True, s'\<lparr>status_ok := True\<rparr>) else Inr (False, s'))"

section \<open>Completions of a board\<close>

text \<open>
  \<open>extends g b\<close>: \<open>b\<close> has the side of \<open>g\<close>, and every element of \<open>b\<close> is the element of
  \<open>g\<close> or a value in \<open>[1, N]\<close> where \<open>g\<close> is undetermined. A completion of \<open>g\<close> is such a
  \<open>b\<close> with no undetermined element left.
\<close>

definition extends :: "Grid \<Rightarrow> Grid \<Rightarrow> bool" where
  "extends g b \<longleftrightarrow>
     Grid_n b = Grid_n g
     \<and> (\<forall>x y. cell b x y = cell g x y
            \<or> (cell g x y = -1 \<and> 1 \<le> cell b x y \<and> cell b x y \<le> int (Grid_n g)))"

definition completion :: "Grid \<Rightarrow> Grid \<Rightarrow> bool" where
  "completion g b \<longleftrightarrow>
     grid_inv b \<and> extends g b
     \<and> (\<forall>x y. x < Grid_n b \<and> y < Grid_n b \<longrightarrow> cell b x y \<noteq> -1)"

section \<open>Grid: range contract\<close>

lemma grid_inv_new: "grid_inv (Grid_new k)"
  by (simp add: grid_inv_def Grid_new_def list_all_iff)

lemma grid_inv_reset: "grid_inv (Grid_reset g k)"
  by (simp add: grid_inv_def Grid_reset_def list_all_iff)

lemma grid_inv_row: "grid_inv g \<Longrightarrow> y < dim g \<Longrightarrow> length (matrix g ! y) = dim g"
  by (simp add: grid_inv_def list_all_length)

lemma grid_inv_set: "grid_inv g \<Longrightarrow> Grid_set g x y i = Inr g' \<Longrightarrow> grid_inv g' \<and> dim g' = dim g"
  by (auto simp: grid_inv_def Grid_set_def multi_array_write_def list_all_length nth_list_update
      split: if_splits)

text \<open>
  C9. In a grid of side \<open>N\<close>, \<open>get(x,y)\<close> fails with OutOfRange exactly when \<open>x \<ge> N\<close> or
  \<open>y \<ge> N\<close>, and otherwise returns the stored element; \<open>set(x,y,v)\<close> fails in exactly the same
  cases, and otherwise stores \<open>v\<close>, whatever integer it is: the element read back is \<open>v\<close>,
  every other element and the side length are as before.
\<close>

theorem grid_get_set_range_contract:
  assumes "grid_inv g"
  shows "(Grid_get g x y = Inl OutOfRange \<longleftrightarrow> Grid_n g \<le> x \<or> Grid_n g \<le> y)
    \<and> (x < Grid_n g \<and> y < Grid_n g \<longrightarrow> Grid_get g x y = Inr (matrix g ! y ! x))
    \<and> (Grid_set g x y v = Inl OutOfRange \<longleftrightarrow> Grid_n g \<le> x \<or> Grid_n g \<le> y)
    \<and> (x < Grid_n g \<and> y < Grid_n g \<longrightarrow>
           (\<exists>g'. Grid_set g x y v = Inr g' \<and> grid_inv g' \<and> Grid_n g' = Grid_n g
              \<and> Grid_get g' x y = Inr v
              \<and> (\<forall>x' y'. (x', y') \<noteq> (x, y) \<longrightarrow> Grid_get g' x' y' = Grid_get g x' y')))"
proof -
  have len: "length (matrix g) = dim g" using assms by (simp add: grid_inv_def)
  have row: "\<And>j. j < dim g \<Longrightarrow> length (matrix g ! j) = dim g"
    using assms by (rule grid_inv_row)
  have A: "(Grid_get g x y = Inl OutOfRange \<longleftrightarrow> Grid_n g \<le> x \<or> Grid_n g \<le> y)"
    using len row [of y] by (auto simp: Grid_get_def Grid_n_def multi_array_read_def)
  have B: "x < Grid_n g \<and> y < Grid_n g \<longrightarrow> Grid_get g x y = Inr (matrix g ! y ! x)"
    using len row [of y] by (auto simp: Grid_get_def Grid_n_def multi_array_read_def)
  have C: "(Grid_set g x y v = Inl OutOfRange \<longleftrightarrow> Grid_n g \<le> x \<or> Grid_n g \<le> y)"
    using len row [of y]
    by (auto simp: Grid_set_def Grid_n_def multi_array_write_def)
  have D: "x < Grid_n g \<and> y < Grid_n g \<longrightarrow>
           (\<exists>g'. Grid_set g x y v = Inr g' \<and> grid_inv g' \<and> Grid_n g' = Grid_n g
              \<and> Grid_get g' x y = Inr v
              \<and> (\<forall>x' y'. (x', y') \<noteq> (x, y) \<longrightarrow> Grid_get g' x' y' = Grid_get g x' y'))"
  proof
    assume xy: "x < Grid_n g \<and> y < Grid_n g"
    let ?g' = "g\<lparr>matrix := (matrix g)[y := (matrix g ! y)[x := v]]\<rparr>"
    have s: "Grid_set g x y v = Inr ?g'"
      using xy len row [of y] by (simp add: Grid_set_def Grid_n_def multi_array_write_def)
    have inv: "grid_inv ?g' \<and> dim ?g' = dim g"
      using grid_inv_set [OF assms s] .
    have rd: "Grid_get ?g' x y = Inr v"
      using xy len row [of y] by (simp add: Grid_get_def Grid_n_def multi_array_read_def)
    have other: "\<forall>x' y'. (x', y') \<noteq> (x, y) \<longrightarrow> Grid_get ?g' x' y' = Grid_get g x' y'"
    proof (intro allI impI)
      fix x' y' assume ne: "(x', y') \<noteq> (x, y)"
      show "Grid_get ?g' x' y' = Grid_get g x' y'"
      proof (cases "y' < length (matrix g)")
        case False
        then show ?thesis by (simp add: Grid_get_def multi_array_read_def)
      next
        case True
        then show ?thesis using ne
          by (cases "y' = y") (auto simp: Grid_get_def multi_array_read_def nth_list_update)
      qed
    qed
    show "\<exists>g'. Grid_set g x y v = Inr g' \<and> grid_inv g' \<and> Grid_n g' = Grid_n g
              \<and> Grid_get g' x y = Inr v
              \<and> (\<forall>x' y'. (x', y') \<noteq> (x, y) \<longrightarrow> Grid_get g' x' y' = Grid_get g x' y')"
      using s inv rd other by (auto simp: Grid_n_def)
  qed
  from A B C D show ?thesis by blast
qed

theorem grid_get_set_range_contract_witness:
  "grid_inv (Grid_new 2)
   \<and> Grid_get (Grid_new 2) 2 0 = Inl OutOfRange
   \<and> Grid_get (Grid_new 2) 1 0 = Inr 0
   \<and> Grid_set (Grid_new 2) 0 2 (-7) = Inl OutOfRange
   \<and> Grid_set (Grid_new 2) 1 0 (-7) = Inr \<lparr>matrix = [[0, -7], [0, 0]], dim = 2\<rparr>"
  using grid_get_set_range_contract [OF grid_inv_new, of 2 2 0 "-7"]
    grid_get_set_range_contract [OF grid_inv_new, of 2 1 0 "-7"]
    grid_get_set_range_contract [OF grid_inv_new, of 2 0 2 "-7"]
  by (simp add: grid_inv_def Grid_new_def Grid_get_def Grid_set_def Grid_n_def
      multi_array_read_def multi_array_write_def numeral_2_eq_2)

section \<open>Search: what a failed call leaves, what a successful call returns\<close>
lemma color_frame:
  "\<not> fst (color_node g cx cy) \<Longrightarrow> snd (color_node g cx cy) = g"
  "\<not> fst (color_loop cur colors ng ux uy i) \<Longrightarrow> snd (color_loop cur colors ng ux uy i) = cur"
proof (induction g cx cy and cur colors ng ux uy i rule: color_node_color_loop.induct)
  case (1 cur_grid cur_x cur_y)
  then show ?case
    by (auto simp: color_node.simps [of cur_grid cur_x cur_y] split: option.splits)
next
  case (2 cur_grid colors new_grid unknown_x unknown_y i)
  then show ?case
    by (auto simp: color_loop.simps [of cur_grid colors new_grid unknown_x unknown_y i]
        split: if_splits prod.splits bool.splits)
qed

lemma bruteforce_frame:
  "\<not> fst (bruteforce_node g cx cy) \<Longrightarrow> snd (bruteforce_node g cx cy) = g"
  "\<not> fst (bruteforce_loop cur ng ux uy i) \<Longrightarrow> snd (bruteforce_loop cur ng ux uy i) = cur"
proof (induction g cx cy and cur ng ux uy i rule: bruteforce_node_bruteforce_loop.induct)
  case (1 cur_grid cur_x cur_y)
  then show ?case
    by (auto simp: bruteforce_node.simps [of cur_grid cur_x cur_y] split: option.splits)
next
  case (2 cur_grid new_grid unknown_x unknown_y i)
  then show ?case
    by (auto simp: bruteforce_loop.simps [of cur_grid new_grid unknown_x unknown_y i]
        split: if_splits prod.splits bool.splits)
qed

lemma singular_frame:
  "snd (singular_decider g f cx cy) = g"
  "snd (singular_loop cur colors ng f ux uy i) = cur"
proof (induction g f cx cy and cur colors ng f ux uy i
    rule: singular_decider_singular_loop.induct)
  case (1 cur_grid found_one cur_x cur_y)
  then show ?case
    by (auto simp: singular_decider.simps [of cur_grid found_one cur_x cur_y]
        split: option.splits)
next
  case (2 cur_grid colors new_grid found_one unknown_x unknown_y i)
  then show ?case
    by (auto simp: singular_loop.simps [of cur_grid colors new_grid found_one unknown_x unknown_y i]
        split: if_splits prod.splits)
qed

lemma grid_inv_put: "grid_inv g \<Longrightarrow> grid_inv (put g x y v)"
  by (auto simp: put_eq grid_inv_def list_all_length nth_list_update)

lemma Grid_n_put [simp]: "Grid_n (put g x y v) = Grid_n g"
  by (auto simp: put_eq Grid_n_def)

lemma cell_put:
  "cell (put g x y v) x' y' =
     (if x' = x \<and> y' = y \<and> y < length (matrix g) \<and> x < length (matrix g ! y) then v
      else cell g x' y')"
  by (auto simp: put_eq cell_eq nth_list_update)

lemma cell_unknown_in_range:
  "cell g x y = -1 \<Longrightarrow> y < length (matrix g) \<and> x < length (matrix g ! y)"
  by (auto simp: cell_eq split: if_splits)

lemma extends_refl: "extends g g"
  by (simp add: extends_def)

lemma extends_put:
  "cell g x y = -1 \<Longrightarrow> 1 \<le> v \<Longrightarrow> v \<le> int (Grid_n g) \<Longrightarrow> extends g (put g x y v)"
  by (auto simp: extends_def cell_put)

lemma extends_trans: "extends g b \<Longrightarrow> extends b c \<Longrightarrow> extends g c"
proof -
  assume gb: "extends g b" and bc: "extends b c"
  have n: "Grid_n c = Grid_n g" "Grid_n b = Grid_n g" using gb bc by (auto simp: extends_def)
  have "cell c x y = cell g x y
            \<or> (cell g x y = -1 \<and> 1 \<le> cell c x y \<and> cell c x y \<le> int (Grid_n g))" for x y
  proof -
    have 1: "cell b x y = cell g x y
            \<or> (cell g x y = -1 \<and> 1 \<le> cell b x y \<and> cell b x y \<le> int (Grid_n g))"
      using gb by (simp add: extends_def)
    have 2: "cell c x y = cell b x y
            \<or> (cell b x y = -1 \<and> 1 \<le> cell c x y \<and> cell c x y \<le> int (Grid_n g))"
      using bc n by (simp add: extends_def)
    from 1 2 show ?thesis by auto
  qed
  then show ?thesis using n by (simp add: extends_def)
qed

definition same_but :: "Grid \<Rightarrow> Grid \<Rightarrow> nat \<Rightarrow> nat \<Rightarrow> bool" where
  "same_but ng cur ux uy \<longleftrightarrow> (\<forall>v. put ng ux uy v = put cur ux uy v)"

lemma same_but_refl: "same_but g g ux uy"
  by (simp add: same_but_def)

lemma same_but_put: "same_but ng cur ux uy \<Longrightarrow> same_but (put ng ux uy v) cur ux uy"
  by (simp add: same_but_def put_put)

lemma same_but_putD: "same_but ng cur ux uy \<Longrightarrow> put ng ux uy v = put cur ux uy v"
  by (simp add: same_but_def)

definition solved_from :: "Grid \<Rightarrow> Grid \<Rightarrow> bool" where
  "solved_from g b \<longleftrightarrow> grid_inv b \<and> extends g b \<and> is_good_board b"

lemma solved_from_step:
  assumes "grid_inv cur" "cell cur ux uy = -1" "1 \<le> i" "i \<le> Grid_n cur"
    and "grid_inv (put cur ux uy (int i)) \<Longrightarrow> solved_from (put cur ux uy (int i)) b"
  shows "solved_from cur b"
proof -
  have "solved_from (put cur ux uy (int i)) b" using assms(1,5) grid_inv_put by blast
  moreover have "extends cur (put cur ux uy (int i))"
    using assms(2,3,4) by (intro extends_put) auto
  ultimately show ?thesis unfolding solved_from_def using extends_trans by blast
qed

lemma color_sound:
  "grid_inv g \<Longrightarrow> fst (color_node g cx cy) \<Longrightarrow> solved_from g (snd (color_node g cx cy))"
  "grid_inv cur \<Longrightarrow> same_but ng cur ux uy \<Longrightarrow> cell cur ux uy = -1 \<Longrightarrow> 1 \<le> i \<Longrightarrow>
     fst (color_loop cur colors ng ux uy i) \<Longrightarrow>
     solved_from cur (snd (color_loop cur colors ng ux uy i))"
proof (induction g cx cy and cur colors ng ux uy i rule: color_node_color_loop.induct)
  case (1 cur_grid cur_x cur_y)
  show ?case
  proof (cases "find_unknown cur_grid cur_x cur_y")
    case None
    then show ?thesis using "1.prems"
      by (simp add: color_node.simps [of cur_grid cur_x cur_y] solved_from_def extends_refl)
  next
    case (Some p)
    obtain ux uy where p: "p = (ux, uy)" by (cases p)
    have c: "cell cur_grid ux uy = -1" using find_unknown_Some Some p by blast
    have eq: "color_node cur_grid cur_x cur_y
        = color_loop cur_grid (good_colors cur_grid ux uy) cur_grid ux uy 1"
      using Some p by (simp add: color_node.simps [of cur_grid cur_x cur_y])
    show ?thesis
      unfolding eq
      using "1.IH" [OF Some p [symmetric] "1.prems"(1) same_but_refl c] "1.prems"(2) eq
      by simp
  qed
next
  case (2 cur_grid colors new_grid unknown_x unknown_y i)
  let ?call = "color_node (put new_grid unknown_x unknown_y (int i)) unknown_x unknown_y"
  have le: "i \<le> Grid_n cur_grid"
    using "2.prems"(5)
    by (auto simp: color_loop.simps [of cur_grid colors new_grid unknown_x unknown_y i]
        split: if_splits)
  have pe: "put new_grid unknown_x unknown_y (int i) = put cur_grid unknown_x unknown_y (int i)"
    using "2.prems"(2) by (rule same_but_putD)
  show ?case
  proof (cases "colors AND color_bit (int i) \<noteq> 0")
    case False
    then have eq: "color_loop cur_grid colors new_grid unknown_x unknown_y i
        = color_loop cur_grid colors new_grid unknown_x unknown_y (Suc i)"
      using le by (simp add: color_loop.simps [of cur_grid colors new_grid unknown_x unknown_y i])
    show ?thesis unfolding eq
      using "2.IH"(3) [OF le] False "2.prems" eq by simp
  next
    case True
    show ?thesis
    proof (cases "fst ?call")
      case t: True
      then have eq: "color_loop cur_grid colors new_grid unknown_x unknown_y i = (True, snd ?call)"
        using le True
        by (auto simp: color_loop.simps [of cur_grid colors new_grid unknown_x unknown_y i]
            split: prod.splits bool.splits)
      have "solved_from cur_grid (snd ?call)"
      proof (rule solved_from_step [OF "2.prems"(1) "2.prems"(3) "2.prems"(4) le])
        assume "grid_inv (put cur_grid unknown_x unknown_y (int i))"
        then show "solved_from (put cur_grid unknown_x unknown_y (int i)) (snd ?call)"
          using "2.IH"(1) [OF le True] t pe by simp
      qed
      then show ?thesis unfolding eq by simp
    next
      case f: False
      then have fr: "snd ?call = put new_grid unknown_x unknown_y (int i)"
        by (rule color_frame(1))
      have eq: "color_loop cur_grid colors new_grid unknown_x unknown_y i
        = color_loop cur_grid colors (snd ?call) unknown_x unknown_y (Suc i)"
        using le True f
        by (auto simp: color_loop.simps [of cur_grid colors new_grid unknown_x unknown_y i]
            split: prod.splits bool.splits)
      have sb: "same_but (snd ?call) cur_grid unknown_x unknown_y"
        unfolding fr using "2.prems"(2) by (rule same_but_put)
      have "(fst ?call, snd ?call) = ?call" by simp
      from "2.IH"(2) [OF le True this] f
      have ih: "grid_inv cur_grid \<Longrightarrow> same_but (snd ?call) cur_grid unknown_x unknown_y \<Longrightarrow>
          cell cur_grid unknown_x unknown_y = -1 \<Longrightarrow> 1 \<le> Suc i \<Longrightarrow>
          fst (color_loop cur_grid colors (snd ?call) unknown_x unknown_y (Suc i)) \<Longrightarrow>
          solved_from cur_grid (snd (color_loop cur_grid colors (snd ?call) unknown_x unknown_y (Suc i)))"
        by simp
      show ?thesis unfolding eq
        using ih [OF "2.prems"(1) sb "2.prems"(3)] "2.prems"(5) eq by simp
    qed
  qed
qed

lemma bruteforce_sound:
  "grid_inv g \<Longrightarrow> fst (bruteforce_node g cx cy) \<Longrightarrow>
     solved_from g (snd (bruteforce_node g cx cy))"
  "grid_inv cur \<Longrightarrow> same_but ng cur ux uy \<Longrightarrow> cell cur ux uy = -1 \<Longrightarrow> 1 \<le> i \<Longrightarrow>
     fst (bruteforce_loop cur ng ux uy i) \<Longrightarrow>
     solved_from cur (snd (bruteforce_loop cur ng ux uy i))"
proof (induction g cx cy and cur ng ux uy i rule: bruteforce_node_bruteforce_loop.induct)
  case (1 cur_grid cur_x cur_y)
  show ?case
  proof (cases "find_unknown cur_grid cur_x cur_y")
    case None
    then show ?thesis using "1.prems"
      by (simp add: bruteforce_node.simps [of cur_grid cur_x cur_y] solved_from_def extends_refl)
  next
    case (Some p)
    obtain ux uy where p: "p = (ux, uy)" by (cases p)
    have c: "cell cur_grid ux uy = -1" using find_unknown_Some Some p by blast
    have eq: "bruteforce_node cur_grid cur_x cur_y = bruteforce_loop cur_grid cur_grid ux uy 1"
      using Some p by (simp add: bruteforce_node.simps [of cur_grid cur_x cur_y])
    show ?thesis
      unfolding eq
      using "1.IH" [OF Some p [symmetric] "1.prems"(1) same_but_refl c] "1.prems"(2) eq
      by simp
  qed
next
  case (2 cur_grid new_grid unknown_x unknown_y i)
  let ?call = "bruteforce_node (put new_grid unknown_x unknown_y (int i)) unknown_x unknown_y"
  have le: "i \<le> Grid_n cur_grid"
    using "2.prems"(5)
    by (auto simp: bruteforce_loop.simps [of cur_grid new_grid unknown_x unknown_y i]
        split: if_splits)
  have pe: "put new_grid unknown_x unknown_y (int i) = put cur_grid unknown_x unknown_y (int i)"
    using "2.prems"(2) by (rule same_but_putD)
  show ?case
  proof (cases "fst ?call")
    case t: True
    then have eq: "bruteforce_loop cur_grid new_grid unknown_x unknown_y i = (True, snd ?call)"
      using le
      by (auto simp: bruteforce_loop.simps [of cur_grid new_grid unknown_x unknown_y i]
          split: prod.splits bool.splits)
    have "solved_from cur_grid (snd ?call)"
    proof (rule solved_from_step [OF "2.prems"(1) "2.prems"(3) "2.prems"(4) le])
      assume "grid_inv (put cur_grid unknown_x unknown_y (int i))"
      then show "solved_from (put cur_grid unknown_x unknown_y (int i)) (snd ?call)"
        using "2.IH"(1) [OF le] t pe by simp
    qed
    then show ?thesis unfolding eq by simp
  next
    case f: False
    then have fr: "snd ?call = put new_grid unknown_x unknown_y (int i)"
      by (rule bruteforce_frame(1))
    have eq: "bruteforce_loop cur_grid new_grid unknown_x unknown_y i
      = bruteforce_loop cur_grid (snd ?call) unknown_x unknown_y (Suc i)"
      using le f
      by (auto simp: bruteforce_loop.simps [of cur_grid new_grid unknown_x unknown_y i]
          split: prod.splits bool.splits)
    have sb: "same_but (snd ?call) cur_grid unknown_x unknown_y"
      unfolding fr using "2.prems"(2) by (rule same_but_put)
    have "(fst ?call, snd ?call) = ?call" by simp
    from "2.IH"(2) [OF le this] f
    have ih: "grid_inv cur_grid \<Longrightarrow> same_but (snd ?call) cur_grid unknown_x unknown_y \<Longrightarrow>
        cell cur_grid unknown_x unknown_y = -1 \<Longrightarrow> 1 \<le> Suc i \<Longrightarrow>
        fst (bruteforce_loop cur_grid (snd ?call) unknown_x unknown_y (Suc i)) \<Longrightarrow>
        solved_from cur_grid (snd (bruteforce_loop cur_grid (snd ?call) unknown_x unknown_y (Suc i)))"
      by simp
    show ?thesis unfolding eq
      using ih [OF "2.prems"(1) sb "2.prems"(3)] "2.prems"(5) eq by simp
  qed
qed

lemma good_loop_no_unknown: "good_loop vm m as \<Longrightarrow> a \<in> set as \<Longrightarrow> a \<noteq> -1"
  by (induction vm m as rule: good_loop.induct) (auto split: if_splits)

lemma good_board_row: "is_good_board b \<Longrightarrow> y < Grid_n b \<Longrightarrow> is_good_row b y"
  by (simp add: is_good_board_def list_all_iff)

lemma good_board_column: "is_good_board b \<Longrightarrow> x < Grid_n b \<Longrightarrow> is_good_column b x"
  by (simp add: is_good_board_def list_all_iff)

lemma good_board_block:
  "is_good_board b \<Longrightarrow> x < n_root (Grid_n b) \<Longrightarrow> y < n_root (Grid_n b) \<Longrightarrow>
     is_good_block b (x * n_root (Grid_n b)) (y * n_root (Grid_n b))"
  by (simp add: is_good_board_def list_all_iff)

lemma good_board_no_unknown:
  assumes "is_good_board b" "x < Grid_n b" "y < Grid_n b"
  shows "cell b x y \<noteq> -1"
proof -
  have "good_loop (valid_mask_of (Grid_n b)) 0 (row_cells b y)"
    using good_board_row [OF assms(1,3)] by (simp add: is_good_row_def)
  moreover have "cell b x y \<in> set (row_cells b y)"
    using assms(2) by (simp add: row_cells_def)
  ultimately show ?thesis by (rule good_loop_no_unknown)
qed

lemma solved_from_completion: "solved_from g b \<Longrightarrow> completion g b \<and> is_good_board b"
  using good_board_no_unknown by (auto simp: solved_from_def completion_def)

section \<open>Validator: what a solved board guarantees\<close>
lemma color_bit_nonzero: "color_bit a \<noteq> 0"
proof -
  define k where "k = nat ((a - 1) mod 32)"
  have k: "k < 32" by (simp add: k_def)
  then have m: "min 31 k = k" by simp
  have "bit (push_bit k (1::32 word)) k"
    using k by (simp add: bit_simps)
  then have "bit (scast (push_bit k (1::32 word)) :: 64 word) k"
    using k by (simp only: bit_signed_iff m) (simp add: bit_simps)
  then have "bit (color_bit a) k"
    by (simp add: color_bit_def shl_int_def k_def)
  then show ?thesis by auto
qed

lemma and_or_zero: "(m OR w) AND (v::64 word) = 0 \<longleftrightarrow> m AND v = 0 \<and> w AND v = 0"
  by (auto simp: bit_eq_iff bit_simps)

lemma or_sub: "(m OR w) OR (vm::64 word) = vm \<Longrightarrow> m OR vm = vm \<and> w OR vm = vm"
  by (auto simp: bit_eq_iff bit_simps)

lemma good_loop_sub: "good_loop vm m as \<Longrightarrow> m OR vm = vm"
proof (induction vm m as rule: good_loop.induct)
  case (1 valid_mask msk)
  then show ?case by simp
next
  case (2 valid_mask msk a as)
  then have "(msk OR color_bit a) OR valid_mask = valid_mask" by (auto split: if_splits)
  then show ?case using or_sub by blast
qed

lemma good_loop_elem:
  "good_loop vm m as \<Longrightarrow> a \<in> set as \<Longrightarrow> m AND color_bit a = 0 \<and> color_bit a OR vm = vm"
proof (induction vm m as rule: good_loop.induct)
  case (1 valid_mask msk)
  then show ?case by simp
next
  case (2 valid_mask msk b as)
  then have t: "msk AND color_bit b = 0" "good_loop valid_mask (msk OR color_bit b) as"
    by (auto split: if_splits)
  show ?case
  proof (cases "a = b")
    case True
    then show ?thesis using t(1) good_loop_sub [OF t(2)] or_sub by blast
  next
    case False
    then have "a \<in> set as" using "2.prems" by simp
    then have "(msk OR color_bit b) AND color_bit a = 0 \<and> color_bit a OR valid_mask = valid_mask"
      using "2.IH" t "2.prems"(1) by (auto split: if_splits)
    then show ?thesis using and_or_zero by blast
  qed
qed

lemma good_loop_disjoint:
  "good_loop vm m (map f ps) \<Longrightarrow> distinct ps \<Longrightarrow> p \<in> set ps \<Longrightarrow> q \<in> set ps \<Longrightarrow>
     p \<noteq> q \<Longrightarrow> color_bit (f p) AND color_bit (f q) = 0"
proof (induction ps arbitrary: m)
  case Nil
  then show ?case by simp
next
  case (Cons r ps)
  then have t: "good_loop vm (m OR color_bit (f r)) (map f ps)"
    by (auto split: if_splits)
  have hd: "x \<in> set ps \<Longrightarrow> color_bit (f r) AND color_bit (f x) = 0" for x
  proof -
    assume "x \<in> set ps"
    then have "f x \<in> set (map f ps)" by simp
    then have "(m OR color_bit (f r)) AND color_bit (f x) = 0"
      using good_loop_elem [OF t] by blast
    then show ?thesis using and_or_zero by blast
  qed
  show ?case
  proof (cases "p = r")
    case True
    then have "q \<in> set ps" using Cons.prems by auto
    then show ?thesis using hd True by simp
  next
    case False
    then have p: "p \<in> set ps" using Cons.prems by auto
    show ?thesis
    proof (cases "q = r")
      case True
      then show ?thesis using hd [OF p] by (simp add: and.commute)
    next
      case False
      then have "q \<in> set ps" using Cons.prems by auto
      then show ?thesis using Cons.IH [OF t] p Cons.prems by auto
    qed
  qed
qed

lemma colors_loop_and:
  "colors_loop m as AND w = 0 \<longleftrightarrow>
     m AND w = 0 \<and> (\<forall>a\<in>set as. a \<noteq> -1 \<longrightarrow> color_bit a AND w = 0)"
proof (induction m as rule: colors_loop.induct)
  case (1 msk)
  then show ?case by simp
next
  case (2 msk a as)
  then show ?case by (auto simp: and_or_zero)
qed

lemma candidate_word:
  fixes R C B vm w :: "64 word"
  assumes "R AND w = 0" "C AND w = 0" "B AND w = 0" "w OR vm = vm"
  shows "(NOT (R OR C OR B) AND vm) AND w = w"
  using assms by (auto simp: bit_eq_iff bit_simps)

definition square :: "Grid \<Rightarrow> bool" where
  "square g \<longleftrightarrow> n_root (Grid_n g) * n_root (Grid_n g) = Grid_n g"

lemma block_cells_product:
  "block_cells g x y =
     map (\<lambda>(y_off, x_off). cell g (x + x_off) (y + y_off))
       (List.product [0..<n_root (Grid_n g)] [0..<n_root (Grid_n g)])"
  by (simp add: block_cells_def product_concat_map map_concat comp_def)

lemma row_disjoint:
  assumes "is_good_board b" "y < Grid_n b" "x < Grid_n b" "x' < Grid_n b" "x \<noteq> x'"
  shows "color_bit (cell b x y) AND color_bit (cell b x' y) = 0"
proof -
  have "good_loop (valid_mask_of (Grid_n b)) 0 (map (\<lambda>x. cell b x y) [0..<Grid_n b])"
    using good_board_row [OF assms(1,2)] by (simp add: is_good_row_def row_cells_def)
  then show ?thesis
    by (rule good_loop_disjoint) (use assms in auto)
qed

lemma column_disjoint:
  assumes "is_good_board b" "x < Grid_n b" "y < Grid_n b" "y' < Grid_n b" "y \<noteq> y'"
  shows "color_bit (cell b x y) AND color_bit (cell b x y') = 0"
proof -
  have "good_loop (valid_mask_of (Grid_n b)) 0 (map (\<lambda>y. cell b x y) [0..<Grid_n b])"
    using good_board_column [OF assms(1,2)] by (simp add: is_good_column_def column_cells_def)
  then show ?thesis
    by (rule good_loop_disjoint) (use assms in auto)
qed

lemma block_disjoint:
  assumes "is_good_board b" "X < n_root (Grid_n b)" "Y < n_root (Grid_n b)"
    and "xo < n_root (Grid_n b)" "yo < n_root (Grid_n b)"
    and "xo' < n_root (Grid_n b)" "yo' < n_root (Grid_n b)" "(xo, yo) \<noteq> (xo', yo')"
  shows "color_bit (cell b (X * n_root (Grid_n b) + xo) (Y * n_root (Grid_n b) + yo))
         AND color_bit (cell b (X * n_root (Grid_n b) + xo') (Y * n_root (Grid_n b) + yo')) = 0"
proof -
  let ?r = "n_root (Grid_n b)"
  let ?f = "\<lambda>(y_off, x_off). cell b (X * ?r + x_off) (Y * ?r + y_off)"
  have "good_loop (valid_mask_of (Grid_n b)) 0 (map ?f (List.product [0..<?r] [0..<?r]))"
    using good_board_block [OF assms(1,2,3)]
    by (simp add: is_good_block_def block_cells_product)
  moreover have "distinct (List.product [0..<?r] [0..<?r])"
    by (simp add: distinct_product)
  moreover have "(yo, xo) \<in> set (List.product [0..<?r] [0..<?r])"
    "(yo', xo') \<in> set (List.product [0..<?r] [0..<?r])" "(yo, xo) \<noteq> (yo', xo')"
    using assms by auto
  ultimately have "color_bit (?f (yo, xo)) AND color_bit (?f (yo', xo')) = 0"
    by (rule good_loop_disjoint)
  then show ?thesis by simp
qed

lemma cell_in_valid_mask:
  assumes "is_good_board b" "x < Grid_n b" "y < Grid_n b"
  shows "color_bit (cell b x y) OR valid_mask_of (Grid_n b) = valid_mask_of (Grid_n b)"
proof -
  have "good_loop (valid_mask_of (Grid_n b)) 0 (row_cells b y)"
    using good_board_row [OF assms(1,3)] by (simp add: is_good_row_def)
  moreover have "cell b x y \<in> set (row_cells b y)"
    using assms(2) by (simp add: row_cells_def)
  ultimately show ?thesis using good_loop_elem by blast
qed

lemma extends_determined: "extends g b \<Longrightarrow> cell g x y \<noteq> -1 \<Longrightarrow> cell b x y = cell g x y"
  by (auto simp: extends_def)

lemma candidate_of_solution:
  assumes good: "is_good_board b" and sq: "square g" and ext: "extends g b"
    and u: "cell g ux uy = -1" and ux: "ux < Grid_n g" and uy: "uy < Grid_n g"
  shows "good_colors g ux uy AND color_bit (cell b ux uy) \<noteq> 0"
proof -
  let ?n = "Grid_n g"
  let ?r = "n_root ?n"
  let ?w = "color_bit (cell b ux uy)"
  have n: "Grid_n b = ?n" using ext by (simp add: extends_def)
  have rr: "?r * ?r = ?n" using sq by (simp add: square_def)
  have row: "row_colors g uy AND ?w = 0"
    unfolding row_colors_def colors_loop_and
  proof (intro conjI ballI impI)
    show "(0::64 word) AND ?w = 0" by simp
  next
    fix a assume a: "a \<in> set (row_cells g uy)" "a \<noteq> -1"
    then obtain x where x: "x < ?n" "a = cell g x uy" by (auto simp: row_cells_def)
    then have "x \<noteq> ux" using a u by auto
    moreover have "cell b x uy = a" using extends_determined [OF ext] x a by simp
    ultimately show "color_bit a AND ?w = 0"
      using row_disjoint [OF good, of uy x ux] n x ux uy by simp
  qed
  have col: "column_colors g ux AND ?w = 0"
    unfolding column_colors_def colors_loop_and
  proof (intro conjI ballI impI)
    show "(0::64 word) AND ?w = 0" by simp
  next
    fix a assume a: "a \<in> set (column_cells g ux)" "a \<noteq> -1"
    then obtain y where y: "y < ?n" "a = cell g ux y" by (auto simp: column_cells_def)
    then have "y \<noteq> uy" using a u by auto
    moreover have "cell b ux y = a" using extends_determined [OF ext] y a by simp
    ultimately show "color_bit a AND ?w = 0"
      using column_disjoint [OF good, of ux y uy] n y ux uy by simp
  qed
  have rpos: "0 < ?r" using rr ux by (cases "?r") auto
  have X: "ux div ?r < ?r" using ux rr rpos by (metis less_mult_imp_div_less)
  have Y: "uy div ?r < ?r" using uy rr rpos by (metis less_mult_imp_div_less)
  have ux_eq: "ux div ?r * ?r + ux mod ?r = ux" by simp
  have uy_eq: "uy div ?r * ?r + uy mod ?r = uy" by simp
  have blk: "block_colors g (ux div ?r * ?r) (uy div ?r * ?r) AND ?w = 0"
    unfolding block_colors_def colors_loop_and
  proof (intro conjI ballI impI)
    show "(0::64 word) AND ?w = 0" by simp
  next
    fix a assume a: "a \<in> set (block_cells g (ux div ?r * ?r) (uy div ?r * ?r))" "a \<noteq> -1"
    then obtain xo yo where o: "xo < ?r" "yo < ?r"
      "a = cell g (ux div ?r * ?r + xo) (uy div ?r * ?r + yo)"
      by (auto simp: block_cells_product)
    have ne: "(xo, yo) \<noteq> (ux mod ?r, uy mod ?r)"
      using a(2) o(3) u ux_eq uy_eq by auto
    have eq: "cell b (ux div ?r * ?r + xo) (uy div ?r * ?r + yo) = a"
      using extends_determined [OF ext] o a by simp
    have "color_bit (cell b (ux div ?r * ?r + xo) (uy div ?r * ?r + yo))
        AND color_bit (cell b (ux div ?r * ?r + ux mod ?r) (uy div ?r * ?r + uy mod ?r)) = 0"
      using block_disjoint [OF good, of "ux div ?r" "uy div ?r" xo yo "ux mod ?r" "uy mod ?r"]
        n X Y o(1,2) ne rpos by simp
    then show "color_bit a AND ?w = 0" using eq by simp
  qed
  have sub: "?w OR valid_mask_of ?n = valid_mask_of ?n"
    using cell_in_valid_mask [OF good, of ux uy] n ux uy by simp
  have "good_colors g ux uy AND ?w = ?w"
    unfolding good_colors_def Let_def
    using candidate_word [OF row col blk sub] .
  then show ?thesis using color_bit_nonzero [of "cell b ux uy"] by simp
qed

section \<open>Search: the scan position and the solved boards below a node\<close>
text \<open>No undetermined element lies before the scan position, in row-major order.\<close>

definition scanned :: "Grid \<Rightarrow> nat \<Rightarrow> nat \<Rightarrow> bool" where
  "scanned g cx cy \<longleftrightarrow>
     (\<forall>x y. x < Grid_n g \<and> y < Grid_n g \<and> (y < cy \<or> (y = cy \<and> x < cx))
        \<longrightarrow> cell g x y \<noteq> -1)"

lemma scanned_origin: "scanned g 0 0"
  by (simp add: scanned_def)

lemma find_unknown_None:
  "find_unknown g cx cy = None \<Longrightarrow> x < Grid_n g \<Longrightarrow> y < Grid_n g \<Longrightarrow>
     cy < y \<or> (y = cy \<and> cx \<le> x) \<Longrightarrow> cell g x y \<noteq> -1"
proof (induction g cx cy rule: find_unknown.induct)
  case (1 cur_grid cur_x cur_y)
  have lt: "cur_y < Grid_n cur_grid" using "1.prems" by auto
  then have sr: "scan_row cur_grid cur_x cur_y = None"
    and rest: "find_unknown cur_grid 0 (Suc cur_y) = None"
    using "1.prems"(1)
    by (auto simp: find_unknown.simps [of cur_grid cur_x cur_y] split: option.splits)
  show ?case
  proof (cases "y = cur_y")
    case True
    then show ?thesis using scan_row_None [OF sr, of x] "1.prems" by auto
  next
    case False
    then have "Suc cur_y < y \<or> (y = Suc cur_y \<and> 0 \<le> x)" using "1.prems" by auto
    then show ?thesis using "1.IH" [OF lt sr rest "1.prems"(2,3)] by simp
  qed
qed

lemma find_unknown_first:
  "find_unknown g cx cy = Some (ux, uy) \<Longrightarrow> x < Grid_n g \<Longrightarrow> y < Grid_n g \<Longrightarrow>
     cy < y \<or> (y = cy \<and> cx \<le> x) \<Longrightarrow> y < uy \<or> (y = uy \<and> x < ux) \<Longrightarrow> cell g x y \<noteq> -1"
proof (induction g cx cy rule: find_unknown.induct)
  case (1 cur_grid cur_x cur_y)
  have lt: "cur_y < Grid_n cur_grid" using "1.prems" by auto
  show ?case
  proof (cases "scan_row cur_grid cur_x cur_y")
    case (Some p)
    then have "scan_row cur_grid cur_x cur_y = Some (ux, uy)"
      using "1.prems"(1) lt by (simp add: find_unknown.simps [of cur_grid cur_x cur_y])
    then show ?thesis using scan_row_Some [of cur_grid cur_x cur_y ux uy] "1.prems" by auto
  next
    case None
    then have rest: "find_unknown cur_grid 0 (Suc cur_y) = Some (ux, uy)"
      using "1.prems"(1) lt by (simp add: find_unknown.simps [of cur_grid cur_x cur_y])
    show ?thesis
    proof (cases "y = cur_y")
      case True
      then show ?thesis using scan_row_None [OF None, of x] "1.prems" by auto
    next
      case False
      then have "Suc cur_y < y \<or> (y = Suc cur_y \<and> 0 \<le> x)" using "1.prems" by auto
      then show ?thesis using "1.IH" [OF lt None rest "1.prems"(2,3)] "1.prems"(5) by simp
    qed
  qed
qed

lemma scanned_None:
  assumes "find_unknown g cx cy = None" "scanned g cx cy" "x < Grid_n g" "y < Grid_n g"
  shows "cell g x y \<noteq> -1"
proof (cases "cy < y \<or> (y = cy \<and> cx \<le> x)")
  case True
  then show ?thesis using find_unknown_None [OF assms(1,3,4)] by simp
next
  case False
  then have "y < cy \<or> (y = cy \<and> x < cx)" by auto
  then show ?thesis using assms(2,3,4) by (simp add: scanned_def)
qed

lemma scanned_Some:
  assumes "find_unknown g cx cy = Some (ux, uy)" "scanned g cx cy"
  shows "scanned g ux uy"
  unfolding scanned_def
proof (intro allI impI)
  fix x y assume a: "x < Grid_n g \<and> y < Grid_n g \<and> (y < uy \<or> (y = uy \<and> x < ux))"
  show "cell g x y \<noteq> -1"
  proof (cases "cy < y \<or> (y = cy \<and> cx \<le> x)")
    case True
    then show ?thesis using find_unknown_first [OF assms(1), of x y] a by simp
  next
    case False
    then have "y < cy \<or> (y = cy \<and> x < cx)" by auto
    then show ?thesis using assms(2) a by (simp add: scanned_def)
  qed
qed

lemma scanned_put: "scanned g ux uy \<Longrightarrow> scanned (put g ux uy v) ux uy"
  by (auto simp: scanned_def cell_put)

lemma square_put: "square g \<Longrightarrow> square (put g x y v)"
  by (simp add: square_def)

text \<open>The solved boards a board extends to, and those with a value of at least \<open>i\<close> at an element.\<close>

definition sols :: "Grid \<Rightarrow> Grid set" where
  "sols g = {b. solved_from g b}"

definition sols_from :: "Grid \<Rightarrow> nat \<Rightarrow> nat \<Rightarrow> nat \<Rightarrow> Grid set" where
  "sols_from g ux uy i = {b. solved_from g b \<and> int i \<le> cell b ux uy}"

lemma grid_eqI:
  assumes "grid_inv g" "grid_inv b" "Grid_n b = Grid_n g" "\<And>x y. cell b x y = cell g x y"
  shows "b = g"
proof -
  have d: "dim b = dim g" using assms(3) by (simp add: Grid_n_def)
  have lg: "length (matrix g) = dim g" "length (matrix b) = dim g"
    using assms(1,2) d by (auto simp: grid_inv_def)
  have "matrix b = matrix g"
  proof (rule nth_equalityI)
    show "length (matrix b) = length (matrix g)" using lg by simp
  next
    fix y assume y: "y < length (matrix b)"
    then have ly: "length (matrix b ! y) = dim g" "length (matrix g ! y) = dim g"
      using grid_inv_row [OF assms(1), of y] grid_inv_row [OF assms(2), of y] lg d by auto
    show "matrix b ! y = matrix g ! y"
    proof (rule nth_equalityI)
      show "length (matrix b ! y) = length (matrix g ! y)" using ly by simp
    next
      fix x assume "x < length (matrix b ! y)"
      then show "matrix b ! y ! x = matrix g ! y ! x"
        using assms(4) [of x y] y ly lg by (simp add: cell_eq)
    qed
  qed
  then show ?thesis using d by simp
qed

lemma cell_outside: "grid_inv g \<Longrightarrow> \<not> (x < Grid_n g \<and> y < Grid_n g) \<Longrightarrow> cell g x y = 0"
  using grid_inv_row [of g y] by (auto simp: cell_eq grid_inv_def Grid_n_def)

lemma sols_leaf:
  assumes "grid_inv g" "scanned g cx cy" "find_unknown g cx cy = None"
  shows "sols g = (if is_good_board g then {g} else {})"
proof -
  have det: "cell g x y \<noteq> -1" for x y
  proof (cases "x < Grid_n g \<and> y < Grid_n g")
    case True
    then show ?thesis using scanned_None [OF assms(3,2)] by simp
  next
    case False
    then show ?thesis using cell_outside [OF assms(1)] by simp
  qed
  have "b = g" if "solved_from g b" for b
  proof (rule grid_eqI [OF assms(1)])
    show "grid_inv b" using that by (simp add: solved_from_def)
    show "Grid_n b = Grid_n g" using that by (simp add: solved_from_def extends_def)
    show "cell b x y = cell g x y" for x y
      using that det extends_determined by (simp add: solved_from_def)
  qed
  moreover have "solved_from g g" if "is_good_board g"
    using that assms(1) by (simp add: solved_from_def extends_refl)
  moreover have "is_good_board g" if "solved_from g g"
    using that by (simp add: solved_from_def)
  ultimately show ?thesis by (auto simp: sols_def)
qed

lemma solved_value_range:
  assumes "solved_from g b" "cell g ux uy = -1" "ux < Grid_n g" "uy < Grid_n g"
  shows "1 \<le> cell b ux uy \<and> cell b ux uy \<le> int (Grid_n g)"
proof -
  have n: "Grid_n b = Grid_n g" using assms(1) by (simp add: solved_from_def extends_def)
  have "cell b ux uy \<noteq> -1"
    using good_board_no_unknown [of b ux uy] assms n by (simp add: solved_from_def)
  moreover have "cell b ux uy = cell g ux uy
      \<or> (cell g ux uy = -1 \<and> 1 \<le> cell b ux uy \<and> cell b ux uy \<le> int (Grid_n g))"
    using assms(1) by (simp add: solved_from_def extends_def)
  ultimately show ?thesis using assms(2) by auto
qed

lemma sols_from_start:
  assumes "cell g ux uy = -1" "ux < Grid_n g" "uy < Grid_n g"
  shows "sols_from g ux uy 1 = sols g"
  using solved_value_range [OF _ assms] by (auto simp: sols_from_def sols_def)

lemma sols_from_end:
  assumes "cell g ux uy = -1" "ux < Grid_n g" "uy < Grid_n g" "Grid_n g < i"
  shows "sols_from g ux uy i = {}"
  using solved_value_range [OF _ assms(1,2,3)] assms(4) by (fastforce simp: sols_from_def)

lemma sols_put:
  assumes "grid_inv g" "cell g ux uy = -1" "1 \<le> i" "i \<le> Grid_n g"
  shows "sols (put g ux uy (int i)) = {b. solved_from g b \<and> cell b ux uy = int i}"
proof -
  have r: "uy < length (matrix g) \<and> ux < length (matrix g ! uy)"
    using assms(2) by (rule cell_unknown_in_range)
  have e: "extends g (put g ux uy (int i))"
    using assms by (intro extends_put) auto
  have c: "cell (put g ux uy (int i)) ux uy = int i" using r by (simp add: cell_put)
  have 1: "solved_from g b \<and> cell b ux uy = int i" if "solved_from (put g ux uy (int i)) b" for b
  proof -
    have "extends (put g ux uy (int i)) b" using that by (simp add: solved_from_def)
    then have "cell b ux uy = int i" using extends_determined [of _ b ux uy] c by simp
    then show ?thesis using that e extends_trans by (auto simp: solved_from_def)
  qed
  have 2: "solved_from (put g ux uy (int i)) b" if "solved_from g b" "cell b ux uy = int i" for b
  proof -
    have "extends (put g ux uy (int i)) b"
      using that by (auto simp: solved_from_def extends_def cell_put)
    then show ?thesis using that by (simp add: solved_from_def)
  qed
  show ?thesis using 1 2 by (auto simp: sols_def)
qed

lemma sols_from_step:
  assumes "grid_inv g" "cell g ux uy = -1" "1 \<le> i" "i \<le> Grid_n g"
  shows "sols_from g ux uy i = sols (put g ux uy (int i)) \<union> sols_from g ux uy (Suc i)"
    and "sols (put g ux uy (int i)) \<inter> sols_from g ux uy (Suc i) = {}"
  unfolding sols_put [OF assms] by (auto simp: sols_from_def)

lemma sols_pruned:
  assumes "grid_inv g" "square g" "cell g ux uy = -1" "ux < Grid_n g" "uy < Grid_n g"
    and "1 \<le> i" "i \<le> Grid_n g" "good_colors g ux uy AND color_bit (int i) = 0"
  shows "sols (put g ux uy (int i)) = {}"
proof -
  have False if "solved_from g b" "cell b ux uy = int i" for b
    using candidate_of_solution [of b g ux uy] that assms by (simp add: solved_from_def)
  then show ?thesis unfolding sols_put [OF assms(1,3,6,7)] by auto
qed

section \<open>Search: a board with a solution is solved\<close>


section \<open>Search: the uniqueness decider counts the solved boards up to two\<close>
text \<open>The number of elements of a set, counted up to two.\<close>

definition count2 :: "'a set \<Rightarrow> int" where
  "count2 S = (if S = {} then 0 else if (\<exists>b. S = {b}) then 1 else 2)"

definition acc :: "bool \<Rightarrow> int" where
  "acc found_one = (if found_one then 1 else 0)"

lemma count2_range: "0 \<le> count2 S \<and> count2 S \<le> 2"
  by (simp add: count2_def)

lemma count2_empty [simp]: "count2 {} = 0"
  by (simp add: count2_def)

lemma count2_zero: "count2 S = 0 \<longleftrightarrow> S = {}"
  by (simp add: count2_def)

lemma count2_union:
  assumes "A \<inter> B = {}"
  shows "count2 (A \<union> B) = min 2 (count2 A + count2 B)"
proof (cases "A = {}")
  case True
  then show ?thesis using count2_range [of B] by simp
next
  case a: False
  show ?thesis
  proof (cases "B = {}")
    case True
    then show ?thesis using count2_range [of A] by simp
  next
    case b: False
    obtain x y where xy: "x \<in> A" "y \<in> B" using a b by auto
    then have "x \<noteq> y" using assms by auto
    then have "\<not> (\<exists>c. A \<union> B = {c})" using xy by (metis Un_iff singletonD)
    then have "count2 (A \<union> B) = 2" using a by (simp add: count2_def)
    moreover have "1 \<le> count2 A" "1 \<le> count2 B" using a b by (auto simp: count2_def)
    ultimately show ?thesis by simp
  qed
qed

lemma singular_correct:
  "grid_inv g \<Longrightarrow> square g \<Longrightarrow> scanned g cx cy \<Longrightarrow>
     (sols g = {} \<longrightarrow> fst (singular_decider g f cx cy) = 0
                      \<or> fst (singular_decider g f cx cy) = acc f)
     \<and> (sols g \<noteq> {} \<longrightarrow> fst (singular_decider g f cx cy) = min 2 (acc f + count2 (sols g)))"
  "grid_inv cur \<Longrightarrow> square cur \<Longrightarrow> scanned cur ux uy \<Longrightarrow> same_but ng cur ux uy \<Longrightarrow>
     cell cur ux uy = -1 \<Longrightarrow> ux < Grid_n cur \<Longrightarrow> uy < Grid_n cur \<Longrightarrow>
     colors = good_colors cur ux uy \<Longrightarrow> 1 \<le> i \<Longrightarrow>
     fst (singular_loop cur colors ng f ux uy i)
       = min 2 (acc f + count2 (sols_from cur ux uy i))"
proof (induction g f cx cy and cur colors ng f ux uy i
    rule: singular_decider_singular_loop.induct)
  case (1 cur_grid found_one cur_x cur_y)
  show ?case
  proof (cases "find_unknown cur_grid cur_x cur_y")
    case None
    have s: "sols cur_grid = (if is_good_board cur_grid then {cur_grid} else {})"
      using sols_leaf [OF "1.prems"(1,3) None] .
    show ?thesis
      using None s
      by (auto simp: singular_decider.simps [of cur_grid found_one cur_x cur_y] acc_def
          count2_def split: if_splits)
  next
    case (Some p)
    obtain ux uy where p: "p = (ux, uy)" by (cases p)
    have f: "find_unknown cur_grid cur_x cur_y = Some (ux, uy)" using Some p by simp
    have c: "cell cur_grid ux uy = -1" "ux < Grid_n cur_grid" "uy < Grid_n cur_grid"
      using find_unknown_Some [OF f] by auto
    have eq: "singular_decider cur_grid found_one cur_x cur_y
        = singular_loop cur_grid (good_colors cur_grid ux uy) cur_grid found_one ux uy 1"
      using f by (simp add: singular_decider.simps [of cur_grid found_one cur_x cur_y])
    have "fst (singular_loop cur_grid (good_colors cur_grid ux uy) cur_grid found_one ux uy 1)
        = min 2 (acc found_one + count2 (sols_from cur_grid ux uy 1))"
      using "1.IH" [OF Some p [symmetric] "1.prems"(1,2) scanned_Some [OF f "1.prems"(3)]
          same_but_refl c refl]
      by simp
    then show ?thesis
      unfolding eq sols_from_start [OF c] by (simp add: acc_def)
  qed
next
  case (2 cur_grid colors new_grid found_one unknown_x unknown_y i)
  let ?child = "put cur_grid unknown_x unknown_y (int i)"
  let ?call = "singular_decider (put new_grid unknown_x unknown_y (int i)) found_one
      unknown_x unknown_y"
  let ?rest = "sols_from cur_grid unknown_x unknown_y (Suc i)"
  note simps = singular_loop.simps [of cur_grid colors new_grid found_one unknown_x unknown_y i]
  have pe: "put new_grid unknown_x unknown_y (int i) = ?child"
    using "2.prems"(4) by (rule same_but_putD)
  show ?case
  proof (cases "i \<le> Grid_n cur_grid")
    case False
    then have "sols_from cur_grid unknown_x unknown_y i = {}"
      using sols_from_end [OF "2.prems"(5,6,7), of i] by simp
    then show ?thesis using False by (simp add: simps acc_def)
  next
    case le: True
    have split: "count2 (sols_from cur_grid unknown_x unknown_y i)
        = min 2 (count2 (sols ?child) + count2 ?rest)"
      using sols_from_step [OF "2.prems"(1,5,9) le] count2_union by metis
    show ?thesis
    proof (cases "colors AND color_bit (int i) \<noteq> 0")
      case False
      then have e: "sols ?child = {}"
        using sols_pruned [OF "2.prems"(1,2,5,6,7,9) le] "2.prems"(8) by simp
      have "fst (singular_loop cur_grid colors new_grid found_one unknown_x unknown_y (Suc i))
          = min 2 (acc found_one + count2 ?rest)"
        using "2.IH"(5) [OF le _ "2.prems"(1,2,3,4,5,6,7,8)] False by simp
      then show ?thesis
        using le False split e count2_range [of ?rest] by (simp add: simps)
    next
      case True
      have fr: "snd ?call = put new_grid unknown_x unknown_y (int i)"
        by (rule singular_frame(1))
      have sb: "same_but (snd ?call) cur_grid unknown_x unknown_y"
        unfolding fr using "2.prems"(4) by (rule same_but_put)
      have pair: "(fst ?call, snd ?call) = ?call" by simp
      have child: "(sols ?child = {} \<longrightarrow> fst ?call = 0 \<or> fst ?call = acc found_one)
          \<and> (sols ?child \<noteq> {} \<longrightarrow> fst ?call = min 2 (acc found_one + count2 (sols ?child)))"
        using "2.IH"(1) [OF le True] pe grid_inv_put [OF "2.prems"(1)]
          square_put [OF "2.prems"(2)] scanned_put [OF "2.prems"(3)] by simp
      have r0: "0 \<le> count2 ?rest \<and> count2 ?rest \<le> 2" by (rule count2_range)
      have c0: "0 \<le> count2 (sols ?child) \<and> count2 (sols ?child) \<le> 2" by (rule count2_range)
      have cz: "count2 (sols ?child) = 0 \<longleftrightarrow> sols ?child = {}" by (rule count2_zero)
      have c3: "count2 (sols ?child) = 0 \<or> count2 (sols ?child) = 1 \<or> count2 (sols ?child) = 2"
        by (simp add: count2_def)
      have a2: "acc found_one = 0 \<or> acc found_one = 1" by (simp add: acc_def)
      have "fst ?call = 0 \<or> fst ?call = 1 \<or> fst ?call = 2"
      proof (cases "sols ?child = {}")
        case True
        then show ?thesis using child a2 by auto
      next
        case False
        then have "fst ?call = min 2 (acc found_one + count2 (sols ?child))" using child by simp
        then show ?thesis using a2 c3 cz False by auto
      qed
      then consider (zero) "fst ?call = 0" | (one) "fst ?call = 1" | (two) "fst ?call = 2"
        by blast
      then show ?thesis
      proof cases
        case zero
        have eq: "singular_loop cur_grid colors new_grid found_one unknown_x unknown_y i
          = singular_loop cur_grid colors (snd ?call) found_one unknown_x unknown_y (Suc i)"
          using le True zero by (auto simp: simps split: prod.splits)
        have ih: "fst (singular_loop cur_grid colors (snd ?call) found_one unknown_x unknown_y (Suc i))
            = min 2 (acc found_one + count2 ?rest)"
          using "2.IH"(2) [OF le True pair zero "2.prems"(1,2,3) sb "2.prems"(5,6,7,8)] by simp
        have "sols ?child = {}" using child zero c0 cz by (auto simp: acc_def min_def split: if_splits)
        then show ?thesis unfolding eq ih using split r0 by simp
      next
        case one
        have eq: "singular_loop cur_grid colors new_grid found_one unknown_x unknown_y i
          = singular_loop cur_grid colors (snd ?call) True unknown_x unknown_y (Suc i)"
          using le True one by (auto simp: simps split: prod.splits)
        have ih: "fst (singular_loop cur_grid colors (snd ?call) True unknown_x unknown_y (Suc i))
            = min 2 (acc True + count2 ?rest)"
          using "2.IH"(3) [OF le True pair _ one "2.prems"(1,2,3) sb "2.prems"(5,6,7,8)] one by simp
        have "acc found_one + count2 (sols ?child) = 1"
          using child one c0 cz by (auto simp: acc_def min_def split: if_splits)
        then show ?thesis unfolding eq ih using split r0 c0 by (auto simp: acc_def min_def split: if_splits)
      next
        case two
        have eq: "singular_loop cur_grid colors new_grid found_one unknown_x unknown_y i
          = (2, cur_grid)"
          using le True two by (auto simp: simps split: prod.splits)
        have "2 \<le> acc found_one + count2 (sols ?child)"
          using child two c0 cz by (auto simp: acc_def min_def split: if_splits)
        then show ?thesis unfolding eq using split r0 c0 by (auto simp: acc_def min_def split: if_splits)
      qed
    qed
  qed
qed

section \<open>Validator: a board with a solution passes the partial check\<close>
lemma partial_loop_ok:
  "distinct ps \<Longrightarrow>
   (\<forall>p\<in>set ps. f p \<noteq> -1 \<longrightarrow> m AND color_bit (f p) = 0) \<Longrightarrow>
   (\<forall>p\<in>set ps. \<forall>q\<in>set ps. p \<noteq> q \<and> f p \<noteq> -1 \<and> f q \<noteq> -1
       \<longrightarrow> color_bit (f p) AND color_bit (f q) = 0) \<Longrightarrow>
   partial_loop m (map f ps)"
proof (induction ps arbitrary: m)
  case Nil
  then show ?case by simp
next
  case (Cons r ps)
  show ?case
  proof (cases "f r = -1")
    case True
    then show ?thesis using Cons by auto
  next
    case False
    have 0: "m AND color_bit (f r) = 0" using Cons.prems(2) False by simp
    have "partial_loop (m OR color_bit (f r)) (map f ps)"
    proof (rule Cons.IH)
      show "distinct ps" using Cons.prems(1) by simp
      show "\<forall>p\<in>set ps. f p \<noteq> -1 \<longrightarrow> (m OR color_bit (f r)) AND color_bit (f p) = 0"
      proof (intro ballI impI)
        fix p assume p: "p \<in> set ps" "f p \<noteq> -1"
        then have "p \<noteq> r" using Cons.prems(1) by auto
        then have "color_bit (f r) AND color_bit (f p) = 0"
          using Cons.prems(3) p False by (metis list.set_intros(1,2))
        moreover have "m AND color_bit (f p) = 0" using Cons.prems(2) p by simp
        ultimately show "(m OR color_bit (f r)) AND color_bit (f p) = 0"
          using and_or_zero by blast
      qed
      show "\<forall>p\<in>set ps. \<forall>q\<in>set ps. p \<noteq> q \<and> f p \<noteq> -1 \<and> f q \<noteq> -1
          \<longrightarrow> color_bit (f p) AND color_bit (f q) = 0"
        using Cons.prems(3) by simp
    qed
    then show ?thesis using False 0 by simp
  qed
qed

lemma partial_of_solution:
  assumes "solved_from g b"
  shows "is_good_partial_board g"
proof -
  have good: "is_good_board b" and ext: "extends g b" and n: "Grid_n b = Grid_n g"
    using assms by (auto simp: solved_from_def extends_def)
  let ?n = "Grid_n g"
  let ?r = "n_root ?n"
  have row: "is_good_partial_row g y" if "y < ?n" for y
    unfolding is_good_partial_row_def row_cells_def
  proof (rule partial_loop_ok, goal_cases)
    case 3
    show ?case
    proof (intro ballI impI)
      fix p q assume "p \<in> set [0..<?n]" "q \<in> set [0..<?n]"
        and "p \<noteq> q \<and> cell g p y \<noteq> -1 \<and> cell g q y \<noteq> -1"
      then show "color_bit (cell g p y) AND color_bit (cell g q y) = 0"
        using row_disjoint [OF good, of y p q] extends_determined [OF ext] that n by simp
    qed
  qed simp_all
  have col: "is_good_partial_column g x" if "x < ?n" for x
    unfolding is_good_partial_column_def column_cells_def
  proof (rule partial_loop_ok, goal_cases)
    case 3
    show ?case
    proof (intro ballI impI)
      fix p q assume "p \<in> set [0..<?n]" "q \<in> set [0..<?n]"
        and "p \<noteq> q \<and> cell g x p \<noteq> -1 \<and> cell g x q \<noteq> -1"
      then show "color_bit (cell g x p) AND color_bit (cell g x q) = 0"
        using column_disjoint [OF good, of x p q] extends_determined [OF ext] that n by simp
    qed
  qed simp_all
  have blk: "is_good_partial_block g (X * ?r) (Y * ?r)" if "X < ?r" "Y < ?r" for X Y
    unfolding is_good_partial_block_def block_cells_product
  proof (rule partial_loop_ok, goal_cases)
    case 1
    show ?case by (simp add: distinct_product)
  next
    case 2
    show ?case by simp
  next
    case 3
    show ?case
    proof (intro ballI impI)
      fix p q assume pq: "p \<in> set (List.product [0..<?r] [0..<?r])"
        "q \<in> set (List.product [0..<?r] [0..<?r])"
        and a: "p \<noteq> q \<and> (case p of (y_off, x_off) \<Rightarrow> cell g (X * ?r + x_off) (Y * ?r + y_off)) \<noteq> -1
          \<and> (case q of (y_off, x_off) \<Rightarrow> cell g (X * ?r + x_off) (Y * ?r + y_off)) \<noteq> -1"
      obtain yo xo where p: "p = (yo, xo)" by (cases p)
      obtain yo' xo' where q: "q = (yo', xo')" by (cases q)
      have "color_bit (cell b (X * ?r + xo) (Y * ?r + yo))
          AND color_bit (cell b (X * ?r + xo') (Y * ?r + yo')) = 0"
        using block_disjoint [OF good, of X Y xo yo xo' yo'] that n pq a p q by auto
      then show "color_bit (case p of (y_off, x_off) \<Rightarrow> cell g (X * ?r + x_off) (Y * ?r + y_off))
          AND color_bit (case q of (y_off, x_off) \<Rightarrow> cell g (X * ?r + x_off) (Y * ?r + y_off)) = 0"
        using extends_determined [OF ext] a p q by simp
    qed
  qed
  show ?thesis
    using row col blk by (simp add: is_good_partial_board_def list_all_iff)
qed

lemma solved_from_iff: "solved_from g b \<longleftrightarrow> completion g b \<and> is_good_board b"
  using good_board_no_unknown by (auto simp: solved_from_def completion_def)

lemma count2_one: "count2 S = 1 \<longleftrightarrow> (\<exists>!b. b \<in> S)"
  by (auto simp: count2_def)

lemma count2_two: "count2 S = 2 \<longleftrightarrow> (\<exists>a b. a \<in> S \<and> b \<in> S \<and> a \<noteq> b)"
proof
  assume "count2 S = 2"
  then have ne: "S \<noteq> {}" and ns: "\<not> (\<exists>b. S = {b})" by (auto simp: count2_def split: if_splits)
  then obtain a where a: "a \<in> S" by auto
  then have "S \<noteq> {a}" using ns by blast
  then obtain b where "b \<in> S" "b \<noteq> a" using a by auto
  then show "\<exists>a b. a \<in> S \<and> b \<in> S \<and> a \<noteq> b" using a by blast
next
  assume "\<exists>a b. a \<in> S \<and> b \<in> S \<and> a \<noteq> b"
  then show "count2 S = 2" by (auto simp: count2_def)
qed

section \<open>Claims about the two solvers\<close>
text \<open>Example boards of side 4.\<close>

definition board_unsolvable :: Grid where
  "board_unsolvable =
     \<lparr>matrix = [[1, 2, -1, -1], [-1, -1, -1, -1], [-1, -1, 3, -1], [-1, -1, 4, -1]], dim = 4\<rparr>"

definition board_two_missing :: Grid where
  "board_two_missing =
     \<lparr>matrix = [[1, 2, 3, 4], [3, 4, 1, 2], [2, 1, 4, 3], [4, 3, -1, -1]], dim = 4\<rparr>"





section \<open>Claims about the uniqueness check and about misuse\<close>
lemma singular_eq:
  "singular s =
     (if \<not> status_ok s then Inl LogicError
      else if validate s then
        Inr (fst (singular_decider (grid s) False 0 0) = 1,
             s\<lparr>grid := snd (singular_decider (grid s) False 0 0)\<rparr>)
      else Inr (False, s))"
  by (simp add: singular_def split: prod.splits)

text \<open>
  C7. \<open>print\<close>, both solvers and \<open>singular\<close>, called on a puzzle whose status is not ok,
  end with the logic error: nothing is written to the stream and no puzzle is returned.
\<close>

theorem not_loaded_fails_fast:
  assumes "\<not> status_ok s"
  shows "print s out = Inl LogicError
    \<and> solve_colorability_style s = Inl LogicError
    \<and> solve_bruteforce_style s = Inl LogicError
    \<and> singular s = Inl LogicError"
  using assms
  by (simp add: print_def solve_colorability_style_def solve_bruteforce_style_def singular_def)

theorem not_loaded_fails_fast_witness:
  "\<not> status_ok Sudoku_new
   \<and> print Sudoku_new ''abc'' = Inl LogicError
   \<and> solve_colorability_style Sudoku_new = Inl LogicError
   \<and> solve_bruteforce_style Sudoku_new = Inl LogicError
   \<and> singular Sudoku_new = Inl LogicError"
proof -
  have n: "\<not> status_ok Sudoku_new" by (simp add: Sudoku_new_def)
  show ?thesis using not_loaded_fails_fast [OF n, of "''abc''"] n by simp
qed

text \<open>
  C10. \<open>singular\<close> returns the puzzle it was called on, grid and status: the decider
  writes only to the clones it makes, whatever it answers.
\<close>

theorem singular_keeps_board:
  "snd (singular_decider g found_one cx cy) = g
   \<and> (status_ok s \<longrightarrow> (\<exists>r. singular s = Inr (r, s)))
   \<and> (singular s = Inr (r, s') \<longrightarrow> s' = s)"
proof (intro conjI)
  show "snd (singular_decider g found_one cx cy) = g" by (rule singular_frame(1))
  show "status_ok s \<longrightarrow> (\<exists>r. singular s = Inr (r, s))"
    using singular_frame(1) [of "grid s" False 0 0] by (auto simp: singular_eq)
  show "singular s = Inr (r, s') \<longrightarrow> s' = s"
    using singular_frame(1) [of "grid s" False 0 0]
    by (auto simp: singular_eq split: if_splits)
qed

theorem singular_keeps_board_witness:
  "singular \<lparr>grid = board_two_missing, status_ok = True\<rparr>
     = Inr (True, \<lparr>grid = board_two_missing, status_ok = True\<rparr>)
   \<and> singular \<lparr>grid = board_unsolvable, status_ok = True\<rparr>
     = Inr (False, \<lparr>grid = board_unsolvable, status_ok = True\<rparr>)"
proof -
  have 1: "fst (singular_decider board_two_missing False 0 0) = 1" by code_simp
  have 2: "fst (singular_decider board_unsolvable False 0 0) = 0" by code_simp
  have v1: "validate \<lparr>grid = board_two_missing, status_ok = True\<rparr>" by code_simp
  have v2: "validate \<lparr>grid = board_unsolvable, status_ok = True\<rparr>" by code_simp
  obtain s1 where s1: "singular \<lparr>grid = board_two_missing, status_ok = True\<rparr> = Inr (True, s1)"
    using 1 v1 by (simp add: singular_eq)
  obtain s2 where s2: "singular \<lparr>grid = board_unsolvable, status_ok = True\<rparr> = Inr (False, s2)"
    using 2 v2 by (simp add: singular_eq)
  show ?thesis
    using singular_keeps_board [of board_two_missing False 0 0
        "\<lparr>grid = board_two_missing, status_ok = True\<rparr>" True s1]
      singular_keeps_board [of board_two_missing False 0 0
        "\<lparr>grid = board_unsolvable, status_ok = True\<rparr>" False s2]
      s1 s2
    by simp
qed

text \<open>
  What \<open>singular\<close> computes, in terms of the full check of the validator itself: on a
  puzzle whose status is ok it answers true exactly when one and only one completion of
  the stored board makes \<open>is_good_board\<close> true. The decider answers 2 exactly when two
  different completions do; it answers 2 at a solved leaf reached with \<open>found_one\<close> set,
  and the loop returns 2 at once when a recursive call answers 2.
\<close>

lemma singular_by_full_check:
  assumes "status_ok s" "grid_inv (grid s)" "square (grid s)"
  shows "(\<exists>r. singular s = Inr (r, s)
            \<and> (r \<longleftrightarrow> (\<exists>!b. completion (grid s) b \<and> is_good_board b)))
    \<and> (fst (singular_decider (grid s) False 0 0) = 2 \<longleftrightarrow>
         (\<exists>a b. a \<noteq> b \<and> completion (grid s) a \<and> is_good_board a
                \<and> completion (grid s) b \<and> is_good_board b))
    \<and> (\<forall>g cx cy. find_unknown g cx cy = None \<and> is_good_board g
          \<longrightarrow> singular_decider g True cx cy = (2, g))
    \<and> (\<forall>cur colors ng f ux uy i.
          i \<le> Grid_n cur \<and> colors AND color_bit (int i) \<noteq> 0
          \<and> fst (singular_decider (put ng ux uy (int i)) f ux uy) = 2
          \<longrightarrow> singular_loop cur colors ng f ux uy i = (2, cur))"
proof -
  let ?g = "grid s"
  let ?d = "singular_decider ?g False 0 0"
  have sn: "snd ?d = ?g" by (rule singular_frame(1))
  have cor: "(sols ?g = {} \<longrightarrow> fst ?d = 0) \<and> (sols ?g \<noteq> {} \<longrightarrow> fst ?d = min 2 (count2 (sols ?g)))"
    using singular_correct(1) [OF assms(2,3) scanned_origin, of False] by (simp add: acc_def)
  have rng: "0 \<le> count2 (sols ?g) \<and> count2 (sols ?g) \<le> 2" by (rule count2_range)
  have val: "fst ?d = count2 (sols ?g)"
    using cor rng by (cases "sols ?g = {}") auto
  have mem: "b \<in> sols ?g \<longleftrightarrow> completion ?g b \<and> is_good_board b" for b
    by (simp add: sols_def solved_from_iff)
  have one: "fst ?d = 1 \<longleftrightarrow> (\<exists>!b. completion ?g b \<and> is_good_board b)"
    unfolding val count2_one mem ..
  have two: "fst ?d = 2 \<longleftrightarrow> (\<exists>a b. a \<noteq> b \<and> completion ?g a \<and> is_good_board a
                \<and> completion ?g b \<and> is_good_board b)"
    unfolding val count2_two mem by blast
  have A: "\<exists>r. singular s = Inr (r, s)
            \<and> (r \<longleftrightarrow> (\<exists>!b. completion ?g b \<and> is_good_board b))"
  proof (cases "validate s")
    case True
    have "singular s = Inr (fst ?d = 1, s\<lparr>grid := snd ?d\<rparr>)"
      using assms(1) True by (simp add: singular_eq)
    then have "singular s = Inr (fst ?d = 1, s)" using sn by simp
    then show ?thesis using one by blast
  next
    case False
    then have "sols ?g = {}"
      using partial_of_solution [of ?g] by (auto simp: sols_def validate_def)
    then have "\<not> (\<exists>!b. completion ?g b \<and> is_good_board b)"
      using mem by auto
    moreover have "singular s = Inr (False, s)"
      using assms(1) False by (simp add: singular_def)
    ultimately show ?thesis by blast
  qed
  have C: "\<forall>g cx cy. find_unknown g cx cy = None \<and> is_good_board g
          \<longrightarrow> singular_decider g True cx cy = (2, g)"
    by (auto simp: singular_decider.simps)
  have D: "\<forall>cur colors ng f ux uy i.
          i \<le> Grid_n cur \<and> colors AND color_bit (int i) \<noteq> 0
          \<and> fst (singular_decider (put ng ux uy (int i)) f ux uy) = 2
          \<longrightarrow> singular_loop cur colors ng f ux uy i = (2, cur)"
  proof (intro allI impI)
    fix cur colors ng f ux uy i
    assume "i \<le> Grid_n cur \<and> colors AND color_bit (int i) \<noteq> 0
          \<and> fst (singular_decider (put ng ux uy (int i)) f ux uy) = 2"
    then show "singular_loop cur colors ng f ux uy i = (2, cur)"
      by (auto simp: singular_loop.simps [of cur colors ng f ux uy i] split: prod.splits)
  qed
  from A two C D show ?thesis by blast
qed

section \<open>Claims about candidate masks and rejected input\<close>
definition undetermined_board :: "nat \<Rightarrow> Grid" where
  "undetermined_board k = \<lparr>matrix = replicate k (replicate k (-1)), dim = k\<rparr>"

text \<open>
  C5. Evaluation of the load at two inputs whose only token is not a decimal integer in
  \<open>[1, N]\<close>: at \<open>2147483648\<close> the \<^verbatim>\<open>std::out_of_range\<close> of \<^verbatim>\<open>std::stoi\<close> leaves the load, which
  catches \<^verbatim>\<open>std::invalid_argument\<close> only; at \<open>1x\<close> the load succeeds with the value 1.
\<close>

theorem load_token_not_rejected:
  "read_puzzle_from_string Sudoku_new ''2147483648'' = Inl StoiOutOfRange
   \<and> read_puzzle_from_string Sudoku_new ''1x''
       = Inr (True, \<lparr>grid = \<lparr>matrix = [[1]], dim = 1\<rparr>, status_ok = True\<rparr>)"
  by code_simp

text \<open>
  C2. Evaluation of \<open>good_colors\<close> on the boards of side 36 and 64 with every element
  undetermined: no value occurs, so bits 0 to \<open>N - 1\<close> should all be set. With the 32-bit
  shift \<^verbatim>\<open>(1 << n) - 1\<close> the result has bits 0 to 3 only for side 36, and no bit at all
  for side 64.
\<close>

theorem good_colors_wide_board:
  "good_colors (undetermined_board 36) 0 0 = 15
   \<and> \<not> bit (good_colors (undetermined_board 36) 0 0) 4
   \<and> good_colors (undetermined_board 64) 0 0 = 0"
  by code_simp

section \<open>Loading: what a successful parse establishes\<close>
text \<open>What a successful parse establishes.\<close>

definition cell_ok :: "Grid \<Rightarrow> int \<Rightarrow> bool" where
  "cell_ok g v \<longleftrightarrow> v = -1 \<or> (1 \<le> v \<and> v \<le> int (Grid_n g))"

definition board_ok :: "Grid \<Rightarrow> bool" where
  "board_ok g \<longleftrightarrow>
     grid_inv g \<and> 1 \<le> Grid_n g \<and> Grid_n g \<le> 64 \<and> square g
     \<and> isqrt (Grid_n g) * isqrt (Grid_n g) = Grid_n g
     \<and> (\<forall>x y. x < Grid_n g \<and> y < Grid_n g \<longrightarrow> cell_ok g (cell g x y))"

lemma isqrt_bounds: "isqrt k * isqrt k \<le> k \<and> k < (isqrt k + 1) * (isqrt k + 1)"
proof (induction k)
  case 0
  then show ?case by simp
next
  case (Suc k)
  then show ?case by (auto simp: Let_def)
qed

lemma perfect_square_check:
  assumes "\<not> (isqrt k * isqrt k \<noteq> k \<and> (isqrt k + 1) * (isqrt k + 1) \<noteq> k)"
  shows "n_root k * n_root k = k"
proof -
  have "isqrt k * isqrt k = k" using assms isqrt_bounds [of k] by auto
  moreover from this have "n_root k = isqrt k" by (simp add: n_root_def Let_def)
  ultimately show ?thesis by simp
qed

lemma cell_put_in:
  "grid_inv g \<Longrightarrow> x < Grid_n g \<Longrightarrow> y < Grid_n g \<Longrightarrow>
     cell (put g x y v) x' y' = (if x' = x \<and> y' = y then v else cell g x' y')"
  using grid_inv_row [of g y] by (auto simp: cell_put grid_inv_def Grid_n_def)

lemma insert_row_loop_inv:
  "insert_row_loop g tokens y x = Inr (b, g') \<Longrightarrow> grid_inv g \<Longrightarrow> y < Grid_n g \<Longrightarrow>
     grid_inv g' \<and> Grid_n g' = Grid_n g
     \<and> (\<forall>x' y'. y' \<noteq> y \<or> x' < x \<longrightarrow> cell g' x' y' = cell g x' y')
     \<and> (b \<longrightarrow> (\<forall>x'. x \<le> x' \<and> x' < Grid_n g \<longrightarrow> cell_ok g (cell g' x' y)))"
proof (induction g tokens y x rule: insert_row_loop.induct)
  case (1 g tokens y x)
  note simps = insert_row_loop.simps [of g tokens y x]
  show ?case
  proof (cases "x < Grid_n g")
    case False
    then show ?thesis using "1.prems" by (auto simp: simps)
  next
    case lt: True
    have step: ?thesis
      if rec: "insert_row_loop (put g x y v) tokens y (Suc x) = Inr (b, g')"
        and ih: "insert_row_loop (put g x y v) tokens y (Suc x) = Inr (b, g') \<Longrightarrow>
          grid_inv (put g x y v) \<Longrightarrow> y < Grid_n (put g x y v) \<Longrightarrow>
          grid_inv g' \<and> Grid_n g' = Grid_n (put g x y v)
          \<and> (\<forall>x' y'. y' \<noteq> y \<or> x' < Suc x \<longrightarrow> cell g' x' y' = cell (put g x y v) x' y')
          \<and> (b \<longrightarrow> (\<forall>x'. Suc x \<le> x' \<and> x' < Grid_n (put g x y v)
                \<longrightarrow> cell_ok (put g x y v) (cell g' x' y)))"
        and ok: "cell_ok g v" for v
    proof -
      have r: "grid_inv g' \<and> Grid_n g' = Grid_n g
          \<and> (\<forall>x' y'. y' \<noteq> y \<or> x' < Suc x \<longrightarrow> cell g' x' y' = cell (put g x y v) x' y')
          \<and> (b \<longrightarrow> (\<forall>x'. Suc x \<le> x' \<and> x' < Grid_n g \<longrightarrow> cell_ok g (cell g' x' y)))"
        using ih [OF rec grid_inv_put [OF "1.prems"(2)]] "1.prems"(3)
        by (simp add: cell_ok_def)
      have same: "\<forall>x' y'. y' \<noteq> y \<or> x' < x \<longrightarrow> cell g' x' y' = cell g x' y'"
        using r cell_put_in [OF "1.prems"(2) lt "1.prems"(3)] by auto
      have here: "cell g' x y = v"
        using r cell_put_in [OF "1.prems"(2) lt "1.prems"(3)] by auto
      have "b \<longrightarrow> (\<forall>x'. x \<le> x' \<and> x' < Grid_n g \<longrightarrow> cell_ok g (cell g' x' y))"
      proof (intro impI allI)
        fix x' assume b and x': "x \<le> x' \<and> x' < Grid_n g"
        show "cell_ok g (cell g' x' y)"
        proof (cases "x' = x")
          case True
          then show ?thesis using here ok by simp
        next
          case False
          then show ?thesis using r \<open>b\<close> x' by auto
        qed
      qed
      then show ?thesis using r same by blast
    qed
    show ?thesis
    proof (cases "stoi (tokens ! x)")
      case (Inr v)
      show ?thesis
      proof (cases "v < 1 \<or> v > int (Grid_n g)")
        case True
        then show ?thesis using "1.prems" lt Inr by (auto simp: simps)
      next
        case False
        then have rec: "insert_row_loop (put g x y v) tokens y (Suc x) = Inr (b, g')"
          using "1.prems"(1) lt Inr by (simp add: simps)
        show ?thesis
          using step [OF rec "1.IH"(2) [OF lt Inr False]] False by (auto simp: cell_ok_def)
      qed
    next
      case (Inl e)
      show ?thesis
      proof (cases "e = InvalidArgument \<and> tokens ! x = ''?''")
        case True
        then have rec: "insert_row_loop (put g x y (-1)) tokens y (Suc x) = Inr (b, g')"
          using "1.prems"(1) lt Inl by (simp add: simps)
        have e: "e = InvalidArgument" and q: "tokens ! x = ''?''" using True by auto
        show ?thesis
          using step [OF rec "1.IH"(1) [OF lt Inl e q]] by (auto simp: cell_ok_def)
      next
        case False
        then show ?thesis using "1.prems" lt Inl by (cases e) (auto simp: simps)
      qed
    qed
  qed
qed

lemma parse_rows_inv:
  "parse_rows g f line k y = Inr (b, g') \<Longrightarrow> grid_inv g \<Longrightarrow> Grid_n g = k \<Longrightarrow>
     grid_inv g' \<and> Grid_n g' = k
     \<and> (\<forall>x' y'. y' < y \<longrightarrow> cell g' x' y' = cell g x' y')
     \<and> (b \<longrightarrow> (\<forall>x' y'. y \<le> y' \<and> y' < k \<and> x' < k \<longrightarrow> cell_ok g (cell g' x' y')))"
proof (induction g f line k y arbitrary: rule: parse_rows.induct)
  case (1 g f line k y)
  note simps = parse_rows.simps [of g f line k y]
  obtain f' line' where gl: "getline f line = (f', line')" by (cases "getline f line")
  show ?case
  proof (cases "y < k")
    case False
    then show ?thesis using "1.prems" by (auto simp: simps)
  next
    case lt: True
    show ?thesis
    proof (cases "length (split line') \<noteq> k")
      case True
      then show ?thesis using "1.prems" lt gl by (auto simp: simps)
    next
      case len: False
      show ?thesis
      proof (cases "insert_row g (split line') y")
        case (Inl e)
        then show ?thesis using "1.prems" lt gl len by (auto simp: simps)
      next
        case (Inr p)
        obtain b1 g1 where p: "p = (b1, g1)" by (cases p)
        have row: "grid_inv g1 \<and> Grid_n g1 = Grid_n g
            \<and> (\<forall>x' y'. y' \<noteq> y \<or> x' < 0 \<longrightarrow> cell g1 x' y' = cell g x' y')
            \<and> (b1 \<longrightarrow> (\<forall>x'. 0 \<le> x' \<and> x' < Grid_n g \<longrightarrow> cell_ok g (cell g1 x' y)))"
          using insert_row_loop_inv [of g "split line'" y 0 b1 g1] Inr p "1.prems" lt
          by (simp add: insert_row_def)
        show ?thesis
        proof (cases b1)
          case False
          then show ?thesis using "1.prems" lt gl len Inr p row by (auto simp: simps)
        next
          case True
          then have rec: "parse_rows g1 f' line' k (Suc y) = Inr (b, g')"
            using "1.prems"(1) lt gl len Inr p by (simp add: simps)
          have ih: "grid_inv g' \<and> Grid_n g' = k
              \<and> (\<forall>x' y'. y' < Suc y \<longrightarrow> cell g' x' y' = cell g1 x' y')
              \<and> (b \<longrightarrow> (\<forall>x' y'. Suc y \<le> y' \<and> y' < k \<and> x' < k \<longrightarrow> cell_ok g1 (cell g' x' y')))"
            using "1.IH" [OF lt gl [symmetric] refl _ Inr _ _ rec] len p True row "1.prems"(3)
            by simp
          have ck: "cell_ok g1 = cell_ok g" using row by (simp add: cell_ok_def fun_eq_iff)
          have "b \<longrightarrow> (\<forall>x' y'. y \<le> y' \<and> y' < k \<and> x' < k \<longrightarrow> cell_ok g (cell g' x' y'))"
          proof (intro impI allI)
            fix x' y' assume b and a: "y \<le> y' \<and> y' < k \<and> x' < k"
            show "cell_ok g (cell g' x' y')"
            proof (cases "y' = y")
              case True
              then have "cell g' x' y' = cell g1 x' y" using ih by simp
              then show ?thesis using row True \<open>b1\<close> a "1.prems"(3) by simp
            next
              case False
              then show ?thesis using ih ck \<open>b\<close> a by simp
            qed
          qed
          moreover have "\<forall>x' y'. y' < y \<longrightarrow> cell g' x' y' = cell g x' y'"
            using ih row by simp
          ultimately show ?thesis using ih by blast
        qed
      qed
    qed
  qed
qed

section \<open>Loading: status and repeated values\<close>
lemma Grid_n_reset [simp]: "Grid_n (Grid_reset g k) = k"
  by (simp add: Grid_reset_def Grid_n_def)

lemma parse_puzzle_status: "parse_puzzle s f = Inr (b, s') \<Longrightarrow> status_ok s' = status_ok s"
  by (auto simp: parse_puzzle_def Let_def split: prod.splits if_splits sum.splits bool.splits)

lemma parse_puzzle_ok:
  assumes "parse_puzzle s f = Inr (True, s')"
  shows "board_ok (grid s')"
proof -
  obtain f' line where gl: "getline f [] = (f', line)" by (cases "getline f []")
  define k where "k = length (split line)"
  define g0 where "g0 = Grid_reset (grid s) k"
  have chk: "k \<noteq> 0" "\<not> (isqrt k * isqrt k \<noteq> k \<and> (isqrt k + 1) * (isqrt k + 1) \<noteq> k)"
    "\<not> k > 64"
    using assms gl
    by (auto simp: parse_puzzle_def Let_def k_def split: if_splits)
  obtain g1 where r0: "insert_row g0 (split line) 0 = Inr (True, g1)"
    and rs: "parse_rows g1 f' line k 1 = Inr (True, grid s')"
    using assms gl chk
    by (auto simp: parse_puzzle_def Let_def k_def g0_def
        split: if_splits sum.splits bool.splits prod.splits)
  have i0: "grid_inv g0" "Grid_n g0 = k" by (simp_all add: g0_def grid_inv_reset)
  have row0: "grid_inv g1 \<and> Grid_n g1 = k
      \<and> (\<forall>x'. x' < k \<longrightarrow> cell_ok g0 (cell g1 x' 0))"
    using insert_row_loop_inv [of g0 "split line" 0 0 True g1] r0 i0 chk(1)
    by (simp add: insert_row_def)
  have rows: "grid_inv (grid s') \<and> Grid_n (grid s') = k
      \<and> (\<forall>x' y'. y' < 1 \<longrightarrow> cell (grid s') x' y' = cell g1 x' y')
      \<and> (\<forall>x' y'. 1 \<le> y' \<and> y' < k \<and> x' < k \<longrightarrow> cell_ok g1 (cell (grid s') x' y'))"
    using parse_rows_inv [OF rs] row0 by simp
  have ck: "cell_ok g1 = cell_ok (grid s')" "cell_ok g0 = cell_ok (grid s')"
    using row0 rows i0 by (simp_all add: cell_ok_def fun_eq_iff)
  have cells: "cell_ok (grid s') (cell (grid s') x y)" if "x < k" "y < k" for x y
  proof (cases "y = 0")
    case True
    then show ?thesis using rows row0 ck that by simp
  next
    case False
    then show ?thesis using rows ck that by simp
  qed
  have "square (grid s')"
    using perfect_square_check [OF chk(2)] rows by (simp add: square_def)
  moreover have "isqrt k * isqrt k = k" using chk(2) isqrt_bounds [of k] by auto
  ultimately show ?thesis
    using rows chk cells by (simp add: board_ok_def)
qed

lemma read_puzzle_from_string_True:
  assumes "read_puzzle_from_string s str = Inr (True, s')"
  shows "status_ok s' \<and> board_ok (grid s') \<and> validate s'"
proof -
  obtain s1 where p: "parse_puzzle s (stringstream str) = Inr (True, s1)"
    and v: "validate s1" and e: "s' = s1\<lparr>status_ok := True\<rparr>"
    using assms
    by (auto simp: read_puzzle_from_string_def split: sum.splits prod.splits bool.splits if_splits)
  show ?thesis using parse_puzzle_ok [OF p] v e by (simp add: validate_def)
qed

lemma read_puzzle_from_string_False:
  assumes "read_puzzle_from_string s str = Inr (False, s')"
  shows "status_ok s' = status_ok s"
  using assms parse_puzzle_status [of s "stringstream str"]
  by (auto simp: read_puzzle_from_string_def split: sum.splits prod.splits bool.splits if_splits)

text \<open>
  Two different elements in one row, one column or one block hold the same determined
  value.
\<close>

definition has_repeat :: "Grid \<Rightarrow> bool" where
  "has_repeat g \<longleftrightarrow>
     (\<exists>x1 y1 x2 y2.
        x1 < Grid_n g \<and> y1 < Grid_n g \<and> x2 < Grid_n g \<and> y2 < Grid_n g
        \<and> (x1, y1) \<noteq> (x2, y2)
        \<and> cell g x1 y1 \<noteq> -1 \<and> cell g x1 y1 = cell g x2 y2
        \<and> (y1 = y2 \<or> x1 = x2
            \<or> (x1 div n_root (Grid_n g) = x2 div n_root (Grid_n g)
                \<and> y1 div n_root (Grid_n g) = y2 div n_root (Grid_n g))))"

lemma partial_loop_elem:
  "partial_loop m as \<Longrightarrow> a \<in> set as \<Longrightarrow> a \<noteq> -1 \<Longrightarrow> m AND color_bit a = 0"
proof (induction m as rule: partial_loop.induct)
  case (1 msk)
  then show ?case by simp
next
  case (2 msk b as)
  show ?case
  proof (cases "b = -1")
    case True
    then show ?thesis using 2 by auto
  next
    case False
    then have t: "msk AND color_bit b = 0" "partial_loop (msk OR color_bit b) as"
      using "2.prems"(1) by (auto split: if_splits)
    show ?thesis
    proof (cases "a = b")
      case True
      then show ?thesis using t by simp
    next
      case ne: False
      then have "(msk OR color_bit b) AND color_bit a = 0"
        using "2.IH"(1) [OF False _ t(2)] t(1) "2.prems" by auto
      then show ?thesis using and_or_zero by blast
    qed
  qed
qed

lemma partial_loop_disjoint:
  "partial_loop m (map f ps) \<Longrightarrow> distinct ps \<Longrightarrow> p \<in> set ps \<Longrightarrow> q \<in> set ps \<Longrightarrow>
     p \<noteq> q \<Longrightarrow> f p \<noteq> -1 \<Longrightarrow> f q \<noteq> -1 \<Longrightarrow> color_bit (f p) AND color_bit (f q) = 0"
proof (induction ps arbitrary: m)
  case Nil
  then show ?case by simp
next
  case (Cons r ps)
  show ?case
  proof (cases "f r = -1")
    case True
    then have "partial_loop m (map f ps)" using Cons.prems(1) by simp
    moreover have "p \<in> set ps" "q \<in> set ps" using Cons.prems True by auto
    ultimately show ?thesis using Cons.IH Cons.prems by auto
  next
    case False
    then have t: "partial_loop (m OR color_bit (f r)) (map f ps)"
      using Cons.prems(1) by (auto split: if_splits)
    have hd: "color_bit (f r) AND color_bit (f x) = 0" if "x \<in> set ps" "f x \<noteq> -1" for x
    proof -
      have "f x \<in> set (map f ps)" using that by simp
      then have "(m OR color_bit (f r)) AND color_bit (f x) = 0"
        using partial_loop_elem [OF t] that by blast
      then show ?thesis using and_or_zero by blast
    qed
    show ?thesis
    proof (cases "p = r")
      case True
      then have "q \<in> set ps" using Cons.prems by auto
      then show ?thesis using hd True Cons.prems by simp
    next
      case pr: False
      then have p: "p \<in> set ps" using Cons.prems by auto
      show ?thesis
      proof (cases "q = r")
        case True
        then show ?thesis using hd [OF p] Cons.prems by (simp add: and.commute)
      next
        case False
        then have "q \<in> set ps" using Cons.prems by auto
        then show ?thesis using Cons.IH [OF t] p Cons.prems by auto
      qed
    qed
  qed
qed

lemma repeat_fails_partial:
  assumes "square g" "has_repeat g"
  shows "\<not> is_good_partial_board g"
proof
  assume good: "is_good_partial_board g"
  let ?n = "Grid_n g"
  let ?r = "n_root ?n"
  obtain x1 y1 x2 y2 where
    r: "x1 < ?n" "y1 < ?n" "x2 < ?n" "y2 < ?n" "(x1, y1) \<noteq> (x2, y2)"
      "cell g x1 y1 \<noteq> -1" "cell g x1 y1 = cell g x2 y2"
      "y1 = y2 \<or> x1 = x2 \<or> (x1 div ?r = x2 div ?r \<and> y1 div ?r = y2 div ?r)"
    using assms(2) unfolding has_repeat_def by blast
  have nz: "color_bit (cell g x1 y1) AND color_bit (cell g x2 y2) \<noteq> 0"
    using r(7) color_bit_nonzero [of "cell g x2 y2"] by simp
  have rr: "?r * ?r = ?n" using assms(1) by (simp add: square_def)
  have rpos: "0 < ?r" using rr r(1) by (cases "?r") auto
  consider (row) "y1 = y2" | (col) "x1 = x2"
    | (blk) "x1 div ?r = x2 div ?r \<and> y1 div ?r = y2 div ?r" using r(8) by blast
  then show False
  proof cases
    case row
    have "partial_loop 0 (map (\<lambda>x. cell g x y1) [0..<?n])"
      using good r(2) by (simp add: is_good_partial_board_def list_all_iff
          is_good_partial_row_def row_cells_def)
    then have "color_bit (cell g x1 y1) AND color_bit (cell g x2 y1) = 0"
      by (rule partial_loop_disjoint) (use r row in auto)
    then show False using nz row by simp
  next
    case col
    have "partial_loop 0 (map (\<lambda>y. cell g x1 y) [0..<?n])"
      using good r(1) by (simp add: is_good_partial_board_def list_all_iff
          is_good_partial_column_def column_cells_def)
    then have "color_bit (cell g x1 y1) AND color_bit (cell g x1 y2) = 0"
      by (rule partial_loop_disjoint) (use r col in auto)
    then show False using nz col by simp
  next
    case blk
    let ?X = "x1 div ?r" and ?Y = "y1 div ?r"
    let ?f = "\<lambda>(y_off, x_off). cell g (?X * ?r + x_off) (?Y * ?r + y_off)"
    have X: "?X < ?r" using r(1) rr rpos by (metis less_mult_imp_div_less)
    have Y: "?Y < ?r" using r(2) rr rpos by (metis less_mult_imp_div_less)
    have "partial_loop 0 (map ?f (List.product [0..<?r] [0..<?r]))"
      using good X Y by (simp add: is_good_partial_board_def list_all_iff
          is_good_partial_block_def block_cells_product)
    moreover have "distinct (List.product [0..<?r] [0..<?r])" by (simp add: distinct_product)
    moreover have "(y1 mod ?r, x1 mod ?r) \<in> set (List.product [0..<?r] [0..<?r])"
      "(y2 mod ?r, x2 mod ?r) \<in> set (List.product [0..<?r] [0..<?r])"
      using rpos by auto
    moreover have e1: "?X * ?r + x1 mod ?r = x1" "?Y * ?r + y1 mod ?r = y1" by simp_all
    have e2: "?X * ?r + x2 mod ?r = x2" "?Y * ?r + y2 mod ?r = y2"
      using blk by simp_all
    have "(y1 mod ?r, x1 mod ?r) \<noteq> (y2 mod ?r, x2 mod ?r)"
      using r(5) e1 e2 by (metis prod.inject)
    moreover have "?f (y1 mod ?r, x1 mod ?r) \<noteq> -1" "?f (y2 mod ?r, x2 mod ?r) \<noteq> -1"
      using r(6,7) e1 e2 by simp_all
    ultimately have "color_bit (?f (y1 mod ?r, x1 mod ?r))
        AND color_bit (?f (y2 mod ?r, x2 mod ?r)) = 0"
      by (rule partial_loop_disjoint)
    then show False using nz e1 e2 by simp
  qed
qed

section \<open>Claim about repeated values\<close>
definition board_repeat :: Grid where
  "board_repeat =
     \<lparr>matrix = [[1, 1, -1, -1], [-1, -1, -1, -1], [-1, -1, -1, -1], [-1, -1, -1, -1]], dim = 4\<rparr>"

definition text_repeat :: string where
  "text_repeat = ''1 1 ? ?'' @ [newline] @ ''? ? ? ?'' @ [newline] @ ''? ? ? ?'' @ [newline]
     @ ''? ? ? ?''"

text \<open>
  C8. A board with a repeated determined value in a row, a column or a block fails the
  partial check; so a text that parses to such a board is not loaded (the load returns
  false and the status stays as it was), and \<open>singular\<close> on such a board answers false
  from the failed check alone, the decider is not called.
\<close>

theorem repeated_value_rejected:
  "(square g \<and> has_repeat g \<longrightarrow> \<not> is_good_partial_board g)
   \<and> (parse_puzzle s0 (stringstream str) = Inr (True, s1) \<and> has_repeat (grid s1)
       \<longrightarrow> read_puzzle_from_string s0 str = Inr (False, s1)
           \<and> read_puzzle_from_file s0 (stringstream str) = Inr (False, s1)
           \<and> status_ok s1 = status_ok s0)
   \<and> (status_ok s \<and> square (grid s) \<and> has_repeat (grid s)
       \<longrightarrow> \<not> validate s \<and> singular s = Inr (False, s))"
proof (intro conjI impI)
  show "\<not> is_good_partial_board g" if "square g \<and> has_repeat g"
    using that repeat_fails_partial by blast
next
  assume a: "parse_puzzle s0 (stringstream str) = Inr (True, s1) \<and> has_repeat (grid s1)"
  then have "square (grid s1)" using parse_puzzle_ok [of s0 "stringstream str" s1]
    by (simp add: board_ok_def)
  then have nv: "\<not> validate s1" using a repeat_fails_partial by (simp add: validate_def)
  show "read_puzzle_from_string s0 str = Inr (False, s1)"
    using a nv by (simp add: read_puzzle_from_string_def)
  show "read_puzzle_from_file s0 (stringstream str) = Inr (False, s1)"
    using a nv by (simp add: read_puzzle_from_file_def)
  show "status_ok s1 = status_ok s0" using a parse_puzzle_status by blast
next
  assume a: "status_ok s \<and> square (grid s) \<and> has_repeat (grid s)"
  then show "\<not> validate s" using repeat_fails_partial by (simp add: validate_def)
  then show "singular s = Inr (False, s)" using a by (simp add: singular_def)
qed

theorem repeated_value_rejected_witness:
  "parse_puzzle Sudoku_new (stringstream text_repeat)
     = Inr (True, \<lparr>grid = board_repeat, status_ok = False\<rparr>)
   \<and> square board_repeat \<and> has_repeat board_repeat
   \<and> \<not> is_good_partial_board board_repeat
   \<and> read_puzzle_from_string Sudoku_new text_repeat
       = Inr (False, \<lparr>grid = board_repeat, status_ok = False\<rparr>)
   \<and> singular \<lparr>grid = board_repeat, status_ok = True\<rparr>
       = Inr (False, \<lparr>grid = board_repeat, status_ok = True\<rparr>)"
proof -
  have p: "parse_puzzle Sudoku_new (stringstream text_repeat)
     = Inr (True, \<lparr>grid = board_repeat, status_ok = False\<rparr>)" by code_simp
  have sq: "square board_repeat" by code_simp
  have n: "Grid_n board_repeat = 4" by code_simp
  have c: "cell board_repeat 0 0 = 1" "cell board_repeat (Suc 0) 0 = 1" by code_simp+
  have rep: "has_repeat board_repeat"
    unfolding has_repeat_def
    by (rule exI [of _ 0], rule exI [of _ 0], rule exI [of _ "Suc 0"], rule exI [of _ 0])
      (simp add: n c)
  show ?thesis
    using repeated_value_rejected [of board_repeat Sudoku_new text_repeat
        "\<lparr>grid = board_repeat, status_ok = False\<rparr>" "\<lparr>grid = board_repeat, status_ok = True\<rparr>"]
      p sq rep
    by simp
qed

section \<open>Rendering and parsing back\<close>

definition show_cell :: "int \<Rightarrow> string" where
  "show_cell v = (if v = -1 then ''?'' else show_int v)"

lemma digit_char_cases:
  assumes "d < 10"
  shows "digit_char d \<in> set ''0123456789'' \<and> digit_value (digit_char d) = int d"
proof -
  have "d = 0 \<or> d = 1 \<or> d = 2 \<or> d = 3 \<or> d = 4 \<or> d = 5 \<or> d = 6 \<or> d = 7 \<or> d = 8 \<or> d = 9"
    using assms by arith
  then show ?thesis
    by (elim disjE) (simp_all add: digit_char_def digit_value_def)
qed

lemma show_nat_digits: "set (show_nat k) \<subseteq> set ''0123456789''"
proof (induction k rule: show_nat.induct)
  case (1 k)
  show ?case
  proof (cases "k < 10")
    case True
    then show ?thesis using digit_char_cases [of k] by (simp add: show_nat.simps [of k])
  next
    case False
    have "k mod 10 < 10" by simp
    then have "digit_char (k mod 10) \<in> set ''0123456789''"
      using digit_char_cases by blast
    then show ?thesis using 1 False by (simp add: show_nat.simps [of k])
  qed
qed

lemma show_nat_nonempty: "show_nat k \<noteq> []"
  by (simp add: show_nat.simps [of k])

lemma decimal_snoc: "decimal (ds @ [c]) = 10 * decimal ds + digit_value c"
  by (simp add: decimal_def)

lemma decimal_show_nat: "decimal (show_nat k) = int k"
proof (induction k rule: show_nat.induct)
  case (1 k)
  show ?case
  proof (cases "k < 10")
    case True
    then show ?thesis
      using digit_char_cases [of k] by (simp add: show_nat.simps [of k] decimal_def)
  next
    case False
    have "k mod 10 < 10" by simp
    then have "digit_value (digit_char (k mod 10)) = int (k mod 10)"
      using digit_char_cases by blast
    moreover have "10 * int (k div 10) + int (k mod 10) = int k"
      by (simp add: zdiv_int zmod_int)
    ultimately show ?thesis
      using 1 False by (simp add: show_nat.simps [of k] decimal_snoc)
  qed
qed

lemma digit_not_special:
  assumes "c \<in> set ''0123456789''"
  shows "isdigit c \<and> \<not> isspace c \<and> c \<noteq> CHR ''-'' \<and> c \<noteq> CHR ''+'' \<and> c \<noteq> CHR '' ''
    \<and> c \<noteq> newline"
  using assms by (auto simp: isdigit_def isspace_def newline_def)

lemma stoi_show_nat:
  assumes "int k \<le> 2147483647"
  shows "stoi (show_nat k) = Inr (int k)"
proof -
  obtain c cs where cs: "show_nat k = c # cs"
    using show_nat_nonempty [of k] by (cases "show_nat k") auto
  have all: "\<forall>d\<in>set (show_nat k). isdigit d" using show_nat_digits digit_not_special by blast
  have c: "\<not> isspace c \<and> c \<noteq> CHR ''-'' \<and> c \<noteq> CHR ''+''"
    using show_nat_digits [of k] digit_not_special [of c] cs by auto
  have d: "dropWhile isspace (show_nat k) = show_nat k" using cs c by simp
  have t: "takeWhile isdigit (show_nat k) = show_nat k" using all by (simp add: takeWhile_eq_all_conv)
  show ?thesis
    unfolding stoi_def d Let_def
    using cs c t decimal_show_nat [of k] assms by simp
qed

lemma stoi_question: "stoi ''?'' = Inl InvalidArgument"
  by code_simp

lemma show_int_minus_one: "show_int (-1) = ''-1''"
  by code_simp

lemma show_cell_chars:
  assumes "v = -1 \<or> 1 \<le> v"
  shows "CHR '' '' \<notin> set (show_cell v) \<and> newline \<notin> set (show_cell v)"
proof (cases "v = -1")
  case True
  then show ?thesis by (simp add: show_cell_def newline_def)
next
  case False
  then have "show_cell v = show_nat (nat v)" using assms by (simp add: show_cell_def show_int_def)
  then show ?thesis using show_nat_digits [of "nat v"] digit_not_special by auto
qed

lemma replace_all_Nil: "replace_all [] search format = []"
  by (simp add: replace_all.simps [of "[]"])

lemma replace_all_Cons:
  "replace_all (c # cs) search format =
     (if search = [] then c # cs
      else if take (length search) (c # cs) = search
           then format @ replace_all (drop (length search) (c # cs)) search format
           else c # replace_all cs search format)"
  by (simp add: replace_all.simps [of "c # cs"])

lemma replace_all_skip:
  "CHR ''-'' \<notin> set a \<Longrightarrow> replace_all (a @ r) ''-1'' ''?'' = a @ replace_all r ''-1'' ''?''"
proof (induction a)
  case Nil
  then show ?case by simp
next
  case (Cons c a)
  then have "replace_all (c # (a @ r)) ''-1'' ''?'' = c # replace_all (a @ r) ''-1'' ''?''"
    by (auto simp: replace_all_Cons)
  then show ?case using Cons by simp
qed

lemma replace_all_hit:
  "replace_all (''-1'' @ r) ''-1'' ''?'' = ''?'' @ replace_all r ''-1'' ''?''"
  by (simp add: replace_all_Cons)

lemma replace_all_cell:
  assumes "v = -1 \<or> 1 \<le> v"
  shows "replace_all (show_int v @ r) ''-1'' ''?'' = show_cell v @ replace_all r ''-1'' ''?''"
proof (cases "v = -1")
  case True
  then show ?thesis using replace_all_hit [of r] by (simp add: show_int_minus_one show_cell_def)
next
  case False
  then have e: "show_int v = show_nat (nat v)" "show_cell v = show_nat (nat v)"
    using assms by (simp_all add: show_cell_def show_int_def)
  have "CHR ''-'' \<notin> set (show_nat (nat v))"
    using show_nat_digits [of "nat v"] digit_not_special by auto
  then show ?thesis unfolding e by (rule replace_all_skip)
qed

lemma replace_all_concat:
  assumes "\<And>x r. x \<in> set xs \<Longrightarrow>
    replace_all (P x @ r) ''-1'' ''?'' = Q x @ replace_all r ''-1'' ''?''"
  shows "replace_all (concat (map P xs) @ r) ''-1'' ''?''
    = concat (map Q xs) @ replace_all r ''-1'' ''?''"
  using assms by (induction xs) simp_all

section \<open>Rendering: the text of a board\<close>
text \<open>The text of a board, line by line, with \<open>?\<close> for an undetermined element.\<close>

definition cell_line :: "Grid \<Rightarrow> nat \<Rightarrow> string" where
  "cell_line g y =
     concat (map (\<lambda>x. (if x \<noteq> 0 then '' '' else []) @ show_cell (cell g x y)) [0..<dim g])"

definition board_text :: "Grid \<Rightarrow> string" where
  "board_text g =
     concat (map (\<lambda>y. (if y \<noteq> 0 then [newline] else []) @ cell_line g y) [0..<dim g])"

definition lines_from :: "Grid \<Rightarrow> nat \<Rightarrow> string" where
  "lines_from g y = concat (map (\<lambda>y'. newline # cell_line g y') [y..<dim g])"

lemma cell_ok_sign: "cell_ok g v \<Longrightarrow> v = -1 \<or> 1 \<le> v"
  by (auto simp: cell_ok_def)

lemma Sudoku_to_s_board_text:
  assumes "\<forall>x y. x < dim (grid s) \<and> y < dim (grid s) \<longrightarrow> cell_ok (grid s) (cell (grid s) x y)"
  shows "Sudoku_to_s s = board_text (grid s)"
proof -
  let ?g = "grid s"
  let ?P = "\<lambda>y x. (if x \<noteq> 0 then '' '' else []) @ show_int (cell ?g x y)"
  let ?Q = "\<lambda>y x. (if x \<noteq> 0 then '' '' else []) @ show_cell (cell ?g x y)"
  have inner: "replace_all (concat (map (?P y) [0..<dim ?g]) @ r) ''-1'' ''?''
      = concat (map (?Q y) [0..<dim ?g]) @ replace_all r ''-1'' ''?''"
    if y: "y < dim ?g" for y r
  proof (rule replace_all_concat)
    fix x r assume "x \<in> set [0..<dim ?g]"
    then have "cell ?g x y = -1 \<or> 1 \<le> cell ?g x y"
      using assms y cell_ok_sign by auto
    then have c: "replace_all (show_int (cell ?g x y) @ r) ''-1'' ''?''
        = show_cell (cell ?g x y) @ replace_all r ''-1'' ''?''"
      by (rule replace_all_cell)
    have "replace_all ('' '' @ (show_int (cell ?g x y) @ r)) ''-1'' ''?''
        = '' '' @ replace_all (show_int (cell ?g x y) @ r) ''-1'' ''?''"
      by (rule replace_all_skip) simp
    then show "replace_all (?P y x @ r) ''-1'' ''?'' = ?Q y x @ replace_all r ''-1'' ''?''"
      using c by (cases "x = 0") auto
  qed
  have outer: "replace_all
        (concat (map (\<lambda>y. (if y \<noteq> 0 then [newline] else []) @ concat (map (?P y) [0..<dim ?g]))
           [0..<dim ?g]) @ []) ''-1'' ''?''
      = concat (map (\<lambda>y. (if y \<noteq> 0 then [newline] else []) @ concat (map (?Q y) [0..<dim ?g]))
           [0..<dim ?g]) @ replace_all [] ''-1'' ''?''"
  proof (rule replace_all_concat)
    fix y r assume "y \<in> set [0..<dim ?g]"
    then have y: "y < dim ?g" by simp
    have "replace_all ([newline] @ (concat (map (?P y) [0..<dim ?g]) @ r)) ''-1'' ''?''
        = [newline] @ replace_all (concat (map (?P y) [0..<dim ?g]) @ r) ''-1'' ''?''"
      by (rule replace_all_skip) (simp add: newline_def)
    then show "replace_all (((if y \<noteq> 0 then [newline] else []) @ concat (map (?P y) [0..<dim ?g])) @ r)
          ''-1'' ''?''
        = ((if y \<noteq> 0 then [newline] else []) @ concat (map (?Q y) [0..<dim ?g]))
          @ replace_all r ''-1'' ''?''"
      using inner [OF y, of r] by (cases "y = 0") auto
  qed
  show ?thesis
    using outer
    by (simp add: Sudoku_to_s_def Grid_to_s_def board_text_def cell_line_def replace_all_Nil)
qed

lemma board_text_lines: "0 < dim g \<Longrightarrow> board_text g = cell_line g 0 @ lines_from g 1"
proof -
  assume "0 < dim g"
  then have u: "[0..<dim g] = 0 # [1..<dim g]" by (simp add: upt_conv_Cons)
  have m: "map (\<lambda>y. (if 0 < y then [newline] else []) @ cell_line g y) [Suc 0..<dim g]
      = map (\<lambda>y'. newline # cell_line g y') [Suc 0..<dim g]"
    by (rule map_cong) auto
  show ?thesis
    unfolding board_text_def lines_from_def by (subst u) (simp add: m)
qed

lemma lines_from_step:
  "y < dim g \<Longrightarrow> lines_from g y = newline # cell_line g y @ lines_from g (Suc y)"
  by (simp add: lines_from_def upt_conv_Cons)

lemma lines_from_end: "dim g \<le> y \<Longrightarrow> lines_from g y = []"
  by (simp add: lines_from_def)

lemma cell_line_tokens:
  assumes "0 < dim g"
  shows "cell_line g y
    = show_cell (cell g 0 y) @ concat (map (\<lambda>x. CHR '' '' # show_cell (cell g x y)) [1..<dim g])"
proof -
  have u: "[0..<dim g] = 0 # [1..<dim g]" using assms by (simp add: upt_conv_Cons)
  have m: "map (\<lambda>x. (if 0 < x then '' '' else []) @ show_cell (cell g x y)) [Suc 0..<dim g]
      = map (\<lambda>x. CHR '' '' # show_cell (cell g x y)) [Suc 0..<dim g]"
    by (rule map_cong) auto
  show ?thesis unfolding cell_line_def by (subst u) (simp add: m)
qed

lemma cell_line_no_newline:
  assumes "\<forall>x. x < dim g \<longrightarrow> cell_ok g (cell g x y)"
  shows "newline \<notin> set (cell_line g y)"
proof -
  have "newline \<notin> set (show_cell (cell g x y))" if "x < dim g" for x
    using show_cell_chars [of "cell g x y"] assms that cell_ok_sign by blast
  then show ?thesis by (auto simp: cell_line_def newline_def)
qed

lemma getline_line:
  assumes "newline \<notin> set l" "r = [] \<or> hd r = newline"
  shows "getline \<lparr>rest = l @ r, ok = True\<rparr> old
    = (if r = [] then \<lparr>rest = [], ok = False\<rparr> else \<lparr>rest = tl r, ok = True\<rparr>, l)"
proof -
  have nl: "\<forall>c\<in>set l. c \<noteq> newline" using assms(1) by auto
  have t: "takeWhile (\<lambda>c. c \<noteq> newline) (l @ r) = l"
    using assms(2) nl by (cases r) simp_all
  have d: "dropWhile (\<lambda>c. c \<noteq> newline) (l @ r) = r"
    using assms(2) nl by (cases r) simp_all
  show ?thesis by (simp add: getline_def t d Let_def)
qed

lemma split_nonempty: "split s \<noteq> []"
  by (induction s) (auto split: list.splits)

lemma split_token:
  "CHR '' '' \<notin> set t \<Longrightarrow> split (t @ r) = (t @ hd (split r)) # tl (split r)"
proof (induction t)
  case Nil
  then show ?case using split_nonempty [of r] by simp
next
  case (Cons c t)
  then have "split (t @ r) = (t @ hd (split r)) # tl (split r)" by simp
  then show ?case using Cons.prems by auto
qed

lemma split_tokens:
  assumes "CHR '' '' \<notin> set t" "\<forall>u\<in>set ts. CHR '' '' \<notin> set u"
  shows "split (t @ concat (map (\<lambda>u. CHR '' '' # u) ts)) = t # ts"
  using assms
proof (induction ts arbitrary: t)
  case Nil
  then show ?case using split_token [of t "[]"] by simp
next
  case (Cons u ts)
  have "split (u @ concat (map (\<lambda>u. CHR '' '' # u) ts)) = u # ts"
    using Cons by simp
  then have "split (CHR '' '' # u @ concat (map (\<lambda>u. CHR '' '' # u) ts)) = [] # u # ts"
    by simp
  then show ?case
    using split_token [OF Cons.prems(1), of "CHR '' '' # u @ concat (map (\<lambda>u. CHR '' '' # u) ts)"]
    by simp
qed

lemma split_cell_line:
  assumes "0 < dim g" "\<forall>x. x < dim g \<longrightarrow> cell_ok g (cell g x y)"
  shows "split (cell_line g y) = map (\<lambda>x. show_cell (cell g x y)) [0..<dim g]"
proof -
  have ns: "CHR '' '' \<notin> set (show_cell (cell g x y))" if "x < dim g" for x
    using show_cell_chars [of "cell g x y"] assms(2) that cell_ok_sign by blast
  have u: "[0..<dim g] = 0 # [1..<dim g]" using assms(1) by (simp add: upt_conv_Cons)
  have "split (show_cell (cell g 0 y)
      @ concat (map (\<lambda>u. CHR '' '' # u) (map (\<lambda>x. show_cell (cell g x y)) [1..<dim g])))
    = show_cell (cell g 0 y) # map (\<lambda>x. show_cell (cell g x y)) [1..<dim g]"
    by (rule split_tokens) (use ns assms(1) in auto)
  then show ?thesis
    unfolding cell_line_tokens [OF assms(1)] by (subst u) (simp add: comp_def)
qed

section \<open>Rendering and loading: the round trip\<close>
lemma stoi_show_cell:
  assumes "1 \<le> v" "v \<le> 64"
  shows "stoi (show_cell v) = Inr v"
proof -
  have "show_cell v = show_nat (nat v)" using assms by (simp add: show_cell_def show_int_def)
  moreover have "stoi (show_nat (nat v)) = Inr (int (nat v))"
    by (rule stoi_show_nat) (use assms in simp)
  ultimately show ?thesis using assms by simp
qed

lemma insert_row_loop_render:
  assumes b: "Grid_n b \<le> 64"
  shows "grid_inv g \<Longrightarrow> Grid_n g = Grid_n b \<Longrightarrow> y < Grid_n b \<Longrightarrow>
     (\<forall>x. x < Grid_n b \<longrightarrow> tokens ! x = show_cell (cell b x y)) \<Longrightarrow>
     (\<forall>x. x < Grid_n b \<longrightarrow> cell_ok b (cell b x y)) \<Longrightarrow>
     \<exists>g'. insert_row_loop g tokens y x = Inr (True, g') \<and> grid_inv g' \<and> Grid_n g' = Grid_n b
        \<and> (\<forall>x' y'. cell g' x' y'
              = (if y' = y \<and> x \<le> x' \<and> x' < Grid_n b then cell b x' y else cell g x' y'))"
proof (induction g tokens y x rule: insert_row_loop.induct)
  case (1 g tokens y x)
  note simps = insert_row_loop.simps [of g tokens y x]
  show ?case
  proof (cases "x < Grid_n g")
    case False
    then show ?thesis using "1.prems" by (auto simp: simps)
  next
    case lt: True
    define v where "v = cell b x y"
    have tok: "tokens ! x = show_cell v" using "1.prems"(4) lt "1.prems"(2) by (simp add: v_def)
    have vok: "v = -1 \<or> (1 \<le> v \<and> v \<le> int (Grid_n b))"
      using "1.prems"(5) lt "1.prems"(2) by (simp add: v_def cell_ok_def)
    let ?g1 = "put g x y v"
    have g1: "grid_inv ?g1" "Grid_n ?g1 = Grid_n b"
      using grid_inv_put [OF "1.prems"(1)] "1.prems"(2) by simp_all
    have rec_ex: "\<exists>g'. insert_row_loop ?g1 tokens y (Suc x) = Inr (True, g') \<and> grid_inv g'
        \<and> Grid_n g' = Grid_n b
        \<and> (\<forall>x' y'. cell g' x' y'
              = (if y' = y \<and> Suc x \<le> x' \<and> x' < Grid_n b then cell b x' y else cell ?g1 x' y'))"
      and eq: "insert_row_loop g tokens y x = insert_row_loop ?g1 tokens y (Suc x)"
    proof -
      show "\<exists>g'. insert_row_loop ?g1 tokens y (Suc x) = Inr (True, g') \<and> grid_inv g'
        \<and> Grid_n g' = Grid_n b
        \<and> (\<forall>x' y'. cell g' x' y'
              = (if y' = y \<and> Suc x \<le> x' \<and> x' < Grid_n b then cell b x' y else cell ?g1 x' y'))"
      proof (cases "v = -1")
        case True
        have s: "stoi (tokens ! x) = Inl InvalidArgument" "tokens ! x = ''?''"
          using tok True stoi_question by (simp_all add: show_cell_def)
        have gm: "grid_inv (put g x y (-1))" "Grid_n (put g x y (-1)) = Grid_n b"
          using g1 True by simp_all
        show ?thesis
          using "1.IH"(1) [OF lt s(1) refl s(2) gm "1.prems"(3,4,5)] by (simp only: True)
      next
        case False
        then have r: "1 \<le> v" "v \<le> 64" using vok b by auto
        have s: "stoi (tokens ! x) = Inr v" using tok stoi_show_cell [OF r] by simp
        have c: "\<not> (v < 1 \<or> v > int (Grid_n g))" using vok False "1.prems"(2) by auto
        show ?thesis
          using "1.IH"(2) [OF lt s c g1 "1.prems"(3,4,5)] .
      qed
      show "insert_row_loop g tokens y x = insert_row_loop ?g1 tokens y (Suc x)"
      proof (cases "v = -1")
        case True
        have s: "stoi (tokens ! x) = Inl InvalidArgument" "tokens ! x = ''?''"
          using tok True stoi_question by (simp_all add: show_cell_def)
        show ?thesis using lt s True by (simp add: simps)
      next
        case False
        then have r: "1 \<le> v" "v \<le> 64" using vok b by auto
        have s: "stoi (tokens ! x) = Inr v" using tok stoi_show_cell [OF r] by simp
        have c: "\<not> (v < 1 \<or> v > int (Grid_n g))" using vok False "1.prems"(2) by auto
        show ?thesis using lt s c by (simp add: simps)
      qed
    qed
    obtain g' where g': "insert_row_loop ?g1 tokens y (Suc x) = Inr (True, g')" "grid_inv g'"
      "Grid_n g' = Grid_n b"
      "\<forall>x' y'. cell g' x' y'
          = (if y' = y \<and> Suc x \<le> x' \<and> x' < Grid_n b then cell b x' y else cell ?g1 x' y')"
      using rec_ex by blast
    have yg: "y < Grid_n g" using "1.prems"(2,3) by simp
    have "\<forall>x' y'. cell g' x' y'
        = (if y' = y \<and> x \<le> x' \<and> x' < Grid_n b then cell b x' y else cell g x' y')"
      using g'(4) cell_put_in [OF "1.prems"(1) lt yg] lt "1.prems"(2)
      by (auto simp: v_def)
    then show ?thesis using g' eq by auto
  qed
qed

lemma parse_rows_render:
  assumes bo: "board_ok b"
  shows "grid_inv g \<Longrightarrow> Grid_n g = Grid_n b \<Longrightarrow> k = Grid_n b \<Longrightarrow>
     (y < k \<longrightarrow> f = \<lparr>rest = cell_line b y @ lines_from b (Suc y), ok = True\<rparr>) \<Longrightarrow>
     \<exists>g'. parse_rows g f line k y = Inr (True, g') \<and> grid_inv g' \<and> Grid_n g' = Grid_n b
       \<and> (\<forall>x' y'. cell g' x' y'
             = (if y \<le> y' \<and> y' < k \<and> x' < k then cell b x' y' else cell g x' y'))"
proof (induction g f line k y rule: parse_rows.induct)
  case (1 g f line k y)
  note simps = parse_rows.simps [of g f line k y]
  have n: "dim b = Grid_n b" by (simp add: Grid_n_def)
  have cells: "\<forall>x y. x < Grid_n b \<and> y < Grid_n b \<longrightarrow> cell_ok b (cell b x y)"
    and n64: "Grid_n b \<le> 64" and pos: "0 < dim b"
    using bo by (auto simp: board_ok_def Grid_n_def)
  show ?case
  proof (cases "y < k")
    case False
    then have "parse_rows g f line k y = Inr (True, g)" by (simp add: simps)
    then show ?thesis using "1.prems"(1,2) False by auto
  next
    case lt: True
    let ?l = "cell_line b y"
    let ?f2 = "if Suc y < k then \<lparr>rest = cell_line b (Suc y) @ lines_from b (Suc (Suc y)), ok = True\<rparr>
               else \<lparr>rest = [], ok = False\<rparr>"
    have f: "f = \<lparr>rest = ?l @ lines_from b (Suc y), ok = True\<rparr>" using "1.prems"(4) lt by simp
    have rowok: "\<forall>x. x < dim b \<longrightarrow> cell_ok b (cell b x y)"
      using cells lt "1.prems"(3) n by simp
    have nl: "newline \<notin> set ?l" using rowok by (rule cell_line_no_newline)
    have tl: "lines_from b (Suc y) = [] \<or> hd (lines_from b (Suc y)) = newline"
      using lines_from_step [of "Suc y" b] lines_from_end [of b "Suc y"]
      by (cases "Suc y < dim b") auto
    have gl: "getline f line = (?f2, ?l)"
    proof (cases "Suc y < k")
      case True
      then have "lines_from b (Suc y)
          = newline # cell_line b (Suc y) @ lines_from b (Suc (Suc y))"
        using lines_from_step [of "Suc y" b] "1.prems"(3) n by simp
      then show ?thesis unfolding f getline_line [OF nl tl] using True by simp
    next
      case False
      then have "lines_from b (Suc y) = []"
        using lines_from_end [of b "Suc y"] "1.prems"(3) n by simp
      then show ?thesis unfolding f getline_line [OF nl tl] using False by simp
    qed
    have sp: "split ?l = map (\<lambda>x. show_cell (cell b x y)) [0..<dim b]"
      using split_cell_line [OF pos rowok] .
    have len: "\<not> length (split ?l) \<noteq> k" using sp "1.prems"(3) n by simp
    have toks: "\<forall>x. x < Grid_n b \<longrightarrow> split ?l ! x = show_cell (cell b x y)"
      using sp n by simp
    obtain g1 where g1: "insert_row_loop g (split ?l) y 0 = Inr (True, g1)" "grid_inv g1"
      "Grid_n g1 = Grid_n b"
      "\<forall>x' y'. cell g1 x' y'
          = (if y' = y \<and> 0 \<le> x' \<and> x' < Grid_n b then cell b x' y else cell g x' y')"
      using insert_row_loop_render [OF n64 "1.prems"(1,2) _ toks, of 0] lt "1.prems"(3) rowok n
      by auto
    have ir: "insert_row g (split ?l) y = Inr (True, g1)" using g1(1) by (simp add: insert_row_def)
    have eq: "parse_rows g f line k y = parse_rows g1 ?f2 ?l k (Suc y)"
      using lt gl len ir by (simp add: simps)
    have next_f: "Suc y < k \<longrightarrow>
        ?f2 = \<lparr>rest = cell_line b (Suc y) @ lines_from b (Suc (Suc y)), ok = True\<rparr>"
      by simp
    obtain g' where g': "parse_rows g1 ?f2 ?l k (Suc y) = Inr (True, g')" "grid_inv g'"
      "Grid_n g' = Grid_n b"
      "\<forall>x' y'. cell g' x' y'
          = (if Suc y \<le> y' \<and> y' < k \<and> x' < k then cell b x' y' else cell g1 x' y')"
      using "1.IH" [OF lt gl [symmetric] refl len ir refl refl g1(2,3) "1.prems"(3) next_f]
      by blast
    have "\<forall>x' y'. cell g' x' y'
        = (if y \<le> y' \<and> y' < k \<and> x' < k then cell b x' y' else cell g x' y')"
      using g'(4) g1(4) lt "1.prems"(3) by auto
    then show ?thesis using g' eq by auto
  qed
qed

lemma show_cell_nonempty: "show_cell v \<noteq> []"
  by (simp add: show_cell_def show_int_def show_nat_nonempty)

lemma parse_board_text:
  assumes bo: "board_ok b"
  shows "parse_puzzle s (stringstream (board_text b)) = Inr (True, s\<lparr>grid := b\<rparr>)"
proof -
  let ?k = "Grid_n b"
  have n: "dim b = ?k" by (simp add: Grid_n_def)
  have cells: "\<forall>x y. x < ?k \<and> y < ?k \<longrightarrow> cell_ok b (cell b x y)"
    and n64: "?k \<le> 64" and pos: "0 < dim b" and inv: "grid_inv b"
    and sq: "isqrt ?k * isqrt ?k = ?k"
    using bo by (auto simp: board_ok_def Grid_n_def)
  let ?l = "cell_line b 0"
  let ?f1 = "if 1 < ?k then \<lparr>rest = cell_line b 1 @ lines_from b 2, ok = True\<rparr>
             else \<lparr>rest = [], ok = False\<rparr>"
  have row0: "\<forall>x. x < dim b \<longrightarrow> cell_ok b (cell b x 0)" using cells pos n by simp
  have nl: "newline \<notin> set ?l" using row0 by (rule cell_line_no_newline)
  have tl: "lines_from b 1 = [] \<or> hd (lines_from b 1) = newline"
    using lines_from_step [of 1 b] lines_from_end [of b 1] by (cases "1 < dim b") auto
  have gl: "getline (stringstream (board_text b)) [] = (?f1, ?l)"
  proof (cases "1 < ?k")
    case True
    then have "lines_from b 1 = newline # cell_line b 1 @ lines_from b 2"
      using lines_from_step [of 1 b] n by (simp add: numeral_2_eq_2)
    then show ?thesis
      unfolding stringstream_def board_text_lines [OF pos] getline_line [OF nl tl]
      using True by simp
  next
    case False
    then have "lines_from b 1 = []" using lines_from_end [of b 1] n by simp
    then show ?thesis
      unfolding stringstream_def board_text_lines [OF pos] getline_line [OF nl tl]
      using False by simp
  qed
  have sp: "split ?l = map (\<lambda>x. show_cell (cell b x 0)) [0..<dim b]"
    using split_cell_line [OF pos row0] .
  have len: "length (split ?l) = ?k" using sp n by simp
  have ne: "?l \<noteq> []"
    using cell_line_tokens [OF pos, of 0] show_cell_nonempty by simp
  let ?g0 = "Grid_reset (grid s) ?k"
  have toks: "\<forall>x. x < ?k \<longrightarrow> split ?l ! x = show_cell (cell b x 0)" using sp n by simp
  obtain g1 where g1: "insert_row_loop ?g0 (split ?l) 0 0 = Inr (True, g1)" "grid_inv g1"
    "Grid_n g1 = ?k"
    "\<forall>x' y'. cell g1 x' y'
        = (if y' = 0 \<and> 0 \<le> x' \<and> x' < ?k then cell b x' 0 else cell ?g0 x' y')"
    using insert_row_loop_render [where b = b and g = ?g0 and y = 0 and x = 0
        and tokens = "split ?l", OF n64 grid_inv_reset _ _ toks] pos n row0
    by auto
  have ir: "insert_row ?g0 (split ?l) 0 = Inr (True, g1)" using g1(1) by (simp add: insert_row_def)
  have next_f: "1 < ?k \<longrightarrow> ?f1 = \<lparr>rest = cell_line b 1 @ lines_from b (Suc 1), ok = True\<rparr>"
    by (simp add: numeral_2_eq_2)
  obtain g' where g': "parse_rows g1 ?f1 ?l ?k 1 = Inr (True, g')" "grid_inv g'"
    "Grid_n g' = ?k"
    "\<forall>x' y'. cell g' x' y'
        = (if 1 \<le> y' \<and> y' < ?k \<and> x' < ?k then cell b x' y' else cell g1 x' y')"
    using parse_rows_render [OF bo g1(2,3) refl next_f] by blast
  have "g' = b"
  proof (rule grid_eqI [OF inv g'(2)])
    show "Grid_n g' = Grid_n b" using g'(3) .
    show "cell g' x y = cell b x y" for x y
    proof (cases "x < ?k \<and> y < ?k")
      case True
      then show ?thesis using g'(4) g1(4) by (cases "y = 0") auto
    next
      case False
      then show ?thesis
        using cell_outside [OF inv, of x y] cell_outside [OF g'(2), of x y] g'(3) by simp
    qed
  qed
  then have pr: "parse_rows g1 ?f1 ?l ?k 1 = Inr (True, b)" using g'(1) by simp
  show ?thesis
    unfolding parse_puzzle_def gl
    using len ne sq n64 pos n ir pr split_nonempty [of ?l] by (simp add: Let_def)
qed

lemma round_trip_board_ok:
  assumes "board_ok (grid s)" "validate s"
  shows "read_puzzle_from_string s1 (Sudoku_to_s s)
    = Inr (True, s1\<lparr>grid := grid s, status_ok := True\<rparr>)"
proof -
  have "\<forall>x y. x < dim (grid s) \<and> y < dim (grid s) \<longrightarrow> cell_ok (grid s) (cell (grid s) x y)"
    using assms(1) by (simp add: board_ok_def Grid_n_def)
  then have t: "Sudoku_to_s s = board_text (grid s)" by (rule Sudoku_to_s_board_text)
  have p: "parse_puzzle s1 (stringstream (board_text (grid s))) = Inr (True, s1\<lparr>grid := grid s\<rparr>)"
    using assms(1) by (rule parse_board_text)
  have v: "validate (s1\<lparr>grid := grid s\<rparr>)" using assms(2) by (simp add: validate_def)
  show ?thesis unfolding t read_puzzle_from_string_def p using v by simp
qed

definition text_two_missing :: string where
  "text_two_missing = ''1 2 3 4'' @ [newline] @ ''3 4 1 2'' @ [newline] @ ''2 1 4 3'' @ [newline]
     @ ''4 3 ? ?''"

text \<open>
  C6. The text \<open>to_s\<close> gives for a puzzle that was loaded successfully is loaded
  successfully again, into any puzzle object, and the grid it leaves there is the grid
  that was rendered.
\<close>

theorem render_parse_round_trip:
  assumes "read_puzzle_from_string s0 str = Inr (True, s)"
  shows "read_puzzle_from_string s1 (Sudoku_to_s s)
    = Inr (True, s1\<lparr>grid := grid s, status_ok := True\<rparr>)"
proof -
  have "board_ok (grid s) \<and> validate s"
    using read_puzzle_from_string_True [OF assms] by simp
  then show ?thesis using round_trip_board_ok by blast
qed

theorem render_parse_round_trip_witness:
  "read_puzzle_from_string Sudoku_new text_two_missing
     = Inr (True, \<lparr>grid = board_two_missing, status_ok = True\<rparr>)
   \<and> Sudoku_to_s \<lparr>grid = board_two_missing, status_ok = True\<rparr> = text_two_missing
   \<and> read_puzzle_from_string Sudoku_new
        (Sudoku_to_s \<lparr>grid = board_two_missing, status_ok = True\<rparr>)
     = Inr (True, \<lparr>grid = board_two_missing, status_ok = True\<rparr>)"
proof -
  have l: "read_puzzle_from_string Sudoku_new text_two_missing
     = Inr (True, \<lparr>grid = board_two_missing, status_ok = True\<rparr>)" by code_simp
  have t: "Sudoku_to_s \<lparr>grid = board_two_missing, status_ok = True\<rparr> = text_two_missing"
    by code_simp
  show ?thesis
    using render_parse_round_trip [OF l, of Sudoku_new] l t by (simp add: Sudoku_new_def)
qed

section \<open>Candidate masks below the width of the shift\<close>

text \<open>
  For values and sides below 32 the 32-bit shifts are in range, and the masks are what
  the headers describe: bit \<open>a - 1\<close> for the value \<open>a\<close>, the low \<open>N\<close> bits for the full mask.
\<close>

lemma bit_color_bit_small:
  assumes "1 \<le> a" "a \<le> 31"
  shows "bit (color_bit a) i \<longleftrightarrow> i = nat (a - 1)"
proof -
  define k where "k = nat (a - 1)"
  have k: "k \<le> 30" "nat ((a - 1) mod 32) = k" using assms by (simp_all add: k_def)
  have "bit (scast (push_bit k (1::32 word)) :: 64 word) i \<longleftrightarrow> i < 64 \<and> min 31 i = k"
    using k(1) by (auto simp: bit_signed_iff bit_simps)
  moreover have "i < 64 \<and> min 31 i = k \<longleftrightarrow> i = k" using k(1) by auto
  ultimately show ?thesis by (simp add: color_bit_def shl_int_def k k_def [symmetric])
qed

lemma bit_valid_mask_small:
  assumes "k \<le> 30"
  shows "bit (valid_mask_of k) i \<longleftrightarrow> i < k"
proof -
  have m: "(2 ^ k - 1 :: 32 word) = mask k"
    by (simp add: mask_eq_exp_minus_1)
  have "bit (scast (mask k :: 32 word) :: 64 word) i \<longleftrightarrow> i < 64 \<and> min 31 i < k"
    using assms by (auto simp: bit_signed_iff bit_simps)
  moreover have "i < 64 \<and> min 31 i < k \<longleftrightarrow> i < k" using assms by auto
  ultimately show ?thesis using assms by (simp add: valid_mask_of_def shl_int_def m)
qed

lemma bit_colors_loop:
  "bit (colors_loop m as) i \<longleftrightarrow> bit m i \<or> (\<exists>a\<in>set as. a \<noteq> -1 \<and> bit (color_bit a) i)"
  by (induction m as rule: colors_loop.induct) (auto simp: bit_simps)

lemma good_colors_small_side:
  assumes "square g" "Grid_n g \<le> 30"
    and "\<forall>x y. x < Grid_n g \<and> y < Grid_n g \<longrightarrow> cell_ok g (cell g x y)"
    and "x < Grid_n g" "y < Grid_n g"
  shows "bit (good_colors g x y) i \<longleftrightarrow>
     i < Grid_n g
     \<and> (\<forall>x'. x' < Grid_n g \<longrightarrow> cell g x' y \<noteq> int i + 1)
     \<and> (\<forall>y'. y' < Grid_n g \<longrightarrow> cell g x y' \<noteq> int i + 1)
     \<and> (\<forall>xo yo. xo < n_root (Grid_n g) \<and> yo < n_root (Grid_n g) \<longrightarrow>
           cell g (x div n_root (Grid_n g) * n_root (Grid_n g) + xo)
                  (y div n_root (Grid_n g) * n_root (Grid_n g) + yo) \<noteq> int i + 1)"
proof -
  let ?n = "Grid_n g"
  let ?r = "n_root ?n"
  have rr: "?r * ?r = ?n" using assms(1) by (simp add: square_def)
  have rpos: "0 < ?r" using rr assms(4) by (cases "?r") auto
  have X: "x div ?r < ?r" using assms(4) rr rpos by (metis less_mult_imp_div_less)
  have Y: "y div ?r < ?r" using assms(5) rr rpos by (metis less_mult_imp_div_less)
  have inb: "x div ?r * ?r + xo < ?n \<and> y div ?r * ?r + yo < ?n" if "xo < ?r" "yo < ?r" for xo yo
  proof -
    have "x div ?r * ?r + xo < Suc (x div ?r) * ?r" "y div ?r * ?r + yo < Suc (y div ?r) * ?r"
      using that by simp_all
    moreover have "Suc (x div ?r) * ?r \<le> ?r * ?r"
      by (rule mult_le_mono1) (use X in simp)
    moreover have "Suc (y div ?r) * ?r \<le> ?r * ?r"
      by (rule mult_le_mono1) (use Y in simp)
    ultimately show ?thesis using rr by linarith
  qed
  have val: "a \<noteq> -1 \<and> bit (color_bit a) i \<longleftrightarrow> a = int i + 1" if "cell_ok g a" for a
  proof (cases "a = -1")
    case True
    then show ?thesis by simp
  next
    case False
    then have r: "1 \<le> a" "a \<le> 31" using that assms(2) by (auto simp: cell_ok_def)
    show ?thesis using False bit_color_bit_small [OF r, of i] r by auto
  qed
  have row: "bit (row_colors g y) i \<longleftrightarrow> (\<exists>x'. x' < ?n \<and> cell g x' y = int i + 1)"
    using val assms(3,5) by (auto simp: row_colors_def row_cells_def bit_colors_loop)
  have col: "bit (column_colors g x) i \<longleftrightarrow> (\<exists>y'. y' < ?n \<and> cell g x y' = int i + 1)"
    using val assms(3,4) by (auto simp: column_colors_def column_cells_def bit_colors_loop)
  have blk: "bit (block_colors g (x div ?r * ?r) (y div ?r * ?r)) i \<longleftrightarrow>
      (\<exists>xo yo. xo < ?r \<and> yo < ?r
         \<and> cell g (x div ?r * ?r + xo) (y div ?r * ?r + yo) = int i + 1)"
  proof -
    have "bit (block_colors g (x div ?r * ?r) (y div ?r * ?r)) i \<longleftrightarrow>
        (\<exists>xo yo. xo < ?r \<and> yo < ?r
           \<and> cell g (x div ?r * ?r + xo) (y div ?r * ?r + yo) \<noteq> -1
           \<and> bit (color_bit (cell g (x div ?r * ?r + xo) (y div ?r * ?r + yo))) i)"
      unfolding block_colors_def block_cells_product bit_colors_loop
      by (simp add: image_iff Bex_def) blast
    moreover have "cell g (x div ?r * ?r + xo) (y div ?r * ?r + yo) \<noteq> -1
           \<and> bit (color_bit (cell g (x div ?r * ?r + xo) (y div ?r * ?r + yo))) i
        \<longleftrightarrow> cell g (x div ?r * ?r + xo) (y div ?r * ?r + yo) = int i + 1"
      if "xo < ?r" "yo < ?r" for xo yo
      using val assms(3) inb [OF that] by blast
    ultimately show ?thesis by blast
  qed
  have i64: "i < Grid_n g \<Longrightarrow> i < 64" using assms(2) by simp
  have "bit (good_colors g x y) i \<longleftrightarrow>
      \<not> (bit (row_colors g y) i \<or> bit (column_colors g x) i
          \<or> bit (block_colors g (x div ?r * ?r) (y div ?r * ?r)) i)
      \<and> bit (valid_mask_of ?n) i"
    using i64 bit_valid_mask_small [OF assms(2), of i]
    by (auto simp: good_colors_def Let_def bit_and_iff bit_or_iff bit_not_iff)
  then show ?thesis
    unfolding row col blk bit_valid_mask_small [OF assms(2), of i] by blast
qed

section \<open>Loading: rejected sides, reads inside the extents\<close>

lemma first_line_side_rejected:
  assumes "getline (stringstream str) [] = (f, line)"
    and "length (split line) > 64
         \<or> (\<forall>r. r * r \<noteq> length (split line))"
  shows "read_puzzle_from_string s str = Inr (False, s)"
proof -
  let ?k = "length (split line)"
  have "isqrt ?k * isqrt ?k = ?k \<or> (isqrt ?k + 1) * (isqrt ?k + 1) = ?k \<Longrightarrow> ?k > 64"
    using assms(2) by blast
  then have "parse_puzzle s (stringstream str) = Inr (False, s)"
    using assms(1) by (auto simp: parse_puzzle_def Let_def)
  then show ?thesis by (simp add: read_puzzle_from_string_def)
qed

lemma cell_in_range:
  "grid_inv g \<Longrightarrow> x < Grid_n g \<Longrightarrow> y < Grid_n g \<Longrightarrow> Grid_get g x y = Inr (cell g x y)"
  using grid_inv_row [of g y]
  by (simp add: cell_def Grid_get_def multi_array_read_def grid_inv_def Grid_n_def)

lemma put_in_range:
  "grid_inv g \<Longrightarrow> x < Grid_n g \<Longrightarrow> y < Grid_n g \<Longrightarrow> Grid_set g x y v = Inr (put g x y v)"
  using grid_inv_row [of g y]
  by (simp add: put_def Grid_set_def multi_array_write_def grid_inv_def Grid_n_def)

lemma block_reads_in_range:
  assumes "square g" "X < n_root (Grid_n g)" "x_off < n_root (Grid_n g)"
  shows "X * n_root (Grid_n g) + x_off < Grid_n g"
proof -
  let ?r = "n_root (Grid_n g)"
  have "X * ?r + x_off < Suc X * ?r" using assms(3) by simp
  moreover have "Suc X * ?r \<le> ?r * ?r" by (rule mult_le_mono1) (use assms(2) in simp)
  ultimately show ?thesis using assms(1) by (simp add: square_def)
qed

section \<open>The full check below the width of the shift\<close>

text \<open>
  For a side below 32 and elements that are undetermined or in \<open>[1, N]\<close>, a row, a column
  or a block passes the loop of the full check exactly when it holds each value of
  \<open>[1, N]\<close> once.
\<close>

lemma good_loop_distinct: "good_loop vm m as \<Longrightarrow> distinct as"
proof (induction vm m as rule: good_loop.induct)
  case (1 valid_mask msk)
  then show ?case by simp
next
  case (2 valid_mask msk a as)
  then have t: "good_loop valid_mask (msk OR color_bit a) as" by (auto split: if_splits)
  have "a \<notin> set as"
  proof
    assume "a \<in> set as"
    then have "(msk OR color_bit a) AND color_bit a = 0" using good_loop_elem [OF t] by blast
    then have "color_bit a AND color_bit a = 0" using and_or_zero by blast
    then show False using color_bit_nonzero [of a] by simp
  qed
  then show ?case using "2.IH" t "2.prems" by (auto split: if_splits)
qed

lemma good_loop_from_bits:
  "\<forall>a\<in>set as. 1 \<le> a \<and> a \<le> 31 \<Longrightarrow> distinct as \<Longrightarrow>
   \<forall>a\<in>set as. \<not> bit m (nat (a - 1)) \<Longrightarrow>
   \<forall>i. bit vm i \<longleftrightarrow> bit m i \<or> (\<exists>a\<in>set as. i = nat (a - 1)) \<Longrightarrow>
   good_loop vm m as"
proof (induction as arbitrary: m)
  case Nil
  then show ?case by (simp add: bit_eq_iff)
next
  case (Cons a as)
  have a: "1 \<le> a" "a \<le> 31" using Cons.prems(1) by auto
  have ba: "bit (color_bit a) i \<longleftrightarrow> i = nat (a - 1)" for i
    using bit_color_bit_small [OF a] .
  have z: "m AND color_bit a = 0"
    by (rule bit_word_eqI) (use Cons.prems(3) ba in \<open>auto simp: bit_and_iff\<close>)
  have "good_loop vm (m OR color_bit a) as"
  proof (rule Cons.IH)
    show "\<forall>a\<in>set as. 1 \<le> a \<and> a \<le> 31" using Cons.prems(1) by simp
    show "distinct as" using Cons.prems(2) by simp
    show "\<forall>a'\<in>set as. \<not> bit (m OR color_bit a) (nat (a' - 1))"
    proof
      fix a' assume a': "a' \<in> set as"
      then have "a' \<noteq> a" "1 \<le> a'" using Cons.prems(1,2) by auto
      then have "nat (a' - 1) \<noteq> nat (a - 1)" using a by auto
      then show "\<not> bit (m OR color_bit a) (nat (a' - 1))"
        using Cons.prems(3) a' ba by (simp add: bit_or_iff)
    qed
    show "\<forall>i. bit vm i \<longleftrightarrow> bit (m OR color_bit a) i \<or> (\<exists>a\<in>set as. i = nat (a - 1))"
      using Cons.prems(4) ba by (auto simp: bit_or_iff)
  qed
  then show ?case using z a by simp
qed

lemma good_loop_iff:
  assumes "k \<le> 30" "length as = k" "\<forall>a\<in>set as. a = -1 \<or> (1 \<le> a \<and> a \<le> int k)"
  shows "good_loop (valid_mask_of k) 0 as \<longleftrightarrow> distinct as \<and> set as = {1..int k}"
proof
  assume g: "good_loop (valid_mask_of k) 0 as"
  have d: "distinct as" using g by (rule good_loop_distinct)
  have "\<forall>a\<in>set as. a \<noteq> -1" using g good_loop_no_unknown by blast
  then have sub: "set as \<subseteq> {1..int k}" using assms(3) by auto
  have "card (set as) = k" using d assms(2) by (simp add: distinct_card)
  then have "card (set as) = card {1..int k}" by simp
  then have "set as = {1..int k}" using sub by (simp add: card_subset_eq)
  then show "distinct as \<and> set as = {1..int k}" using d by simp
next
  assume a: "distinct as \<and> set as = {1..int k}"
  show "good_loop (valid_mask_of k) 0 as"
  proof (rule good_loop_from_bits)
    show "\<forall>a\<in>set as. 1 \<le> a \<and> a \<le> 31" using a assms(1) by auto
    show "distinct as" using a by simp
    show "\<forall>a\<in>set as. \<not> bit (0::64 word) (nat (a - 1))" by simp
    show "\<forall>i. bit (valid_mask_of k) i \<longleftrightarrow> bit (0::64 word) i \<or> (\<exists>a\<in>set as. i = nat (a - 1))"
    proof
      fix i
      have "i < k \<longleftrightarrow> (\<exists>a\<in>{1..int k}. i = nat (a - 1))"
      proof
        assume "i < k"
        then have "int i + 1 \<in> {1..int k}" "i = nat (int i + 1 - 1)" by auto
        then show "\<exists>a\<in>{1..int k}. i = nat (a - 1)" by blast
      next
        assume "\<exists>a\<in>{1..int k}. i = nat (a - 1)"
        then show "i < k" by auto
      qed
      then show "bit (valid_mask_of k) i \<longleftrightarrow> bit (0::64 word) i \<or> (\<exists>a\<in>set as. i = nat (a - 1))"
        using bit_valid_mask_small [OF assms(1), of i] a by simp
    qed
  qed
qed

lemma is_good_board_small_side:
  assumes "square g" "Grid_n g \<le> 30"
    and "\<forall>x y. x < Grid_n g \<and> y < Grid_n g \<longrightarrow> cell_ok g (cell g x y)"
  shows "is_good_board g \<longleftrightarrow>
     (\<forall>y. y < Grid_n g \<longrightarrow>
        distinct (row_cells g y) \<and> set (row_cells g y) = {1..int (Grid_n g)})
     \<and> (\<forall>x. x < Grid_n g \<longrightarrow>
        distinct (column_cells g x) \<and> set (column_cells g x) = {1..int (Grid_n g)})
     \<and> (\<forall>X Y. X < n_root (Grid_n g) \<and> Y < n_root (Grid_n g) \<longrightarrow>
        distinct (block_cells g (X * n_root (Grid_n g)) (Y * n_root (Grid_n g)))
        \<and> set (block_cells g (X * n_root (Grid_n g)) (Y * n_root (Grid_n g)))
            = {1..int (Grid_n g)})"
proof -
  let ?n = "Grid_n g"
  let ?r = "n_root ?n"
  have rr: "?r * ?r = ?n" using assms(1) by (simp add: square_def)
  have ok: "a = -1 \<or> (1 \<le> a \<and> a \<le> int ?n)" if "cell_ok g a" for a
    using that by (simp add: cell_ok_def)
  have row: "is_good_row g y \<longleftrightarrow> distinct (row_cells g y) \<and> set (row_cells g y) = {1..int ?n}"
    if "y < ?n" for y
    unfolding is_good_row_def
    by (rule good_loop_iff [OF assms(2)]) (use that assms(3) ok in \<open>auto simp: row_cells_def\<close>)
  have col: "is_good_column g x
      \<longleftrightarrow> distinct (column_cells g x) \<and> set (column_cells g x) = {1..int ?n}"
    if "x < ?n" for x
    unfolding is_good_column_def
    by (rule good_loop_iff [OF assms(2)]) (use that assms(3) ok in \<open>auto simp: column_cells_def\<close>)
  have blk: "is_good_block g (X * ?r) (Y * ?r)
      \<longleftrightarrow> distinct (block_cells g (X * ?r) (Y * ?r))
        \<and> set (block_cells g (X * ?r) (Y * ?r)) = {1..int ?n}"
    if "X < ?r" "Y < ?r" for X Y
    unfolding is_good_block_def
  proof (rule good_loop_iff [OF assms(2)])
    show "length (block_cells g (X * ?r) (Y * ?r)) = ?n"
      using rr by (simp add: block_cells_product)
    show "\<forall>a\<in>set (block_cells g (X * ?r) (Y * ?r)). a = -1 \<or> (1 \<le> a \<and> a \<le> int ?n)"
    proof
      fix a assume "a \<in> set (block_cells g (X * ?r) (Y * ?r))"
      then obtain xo yo where o: "xo < ?r" "yo < ?r" "a = cell g (X * ?r + xo) (Y * ?r + yo)"
        by (auto simp: block_cells_product)
      have "X * ?r + xo < ?n" "Y * ?r + yo < ?n"
        using block_reads_in_range [OF assms(1)] that o by auto
      then show "a = -1 \<or> (1 \<le> a \<and> a \<le> int ?n)" using assms(3) ok o by simp
    qed
  qed
  show ?thesis
    using row col blk by (auto simp: is_good_board_def list_all_iff)
qed

section \<open>The puzzle objects a program can hold\<close>

text \<open>
  A puzzle object starts as \<open>Sudoku_new\<close> and changes only through the public operations.
  In every such object the extents of the grid agree with its side, and the side is a
  perfect square: the hypotheses of the theorems about the search hold for all of them.
\<close>

inductive reachable :: "Sudoku \<Rightarrow> bool" where
  reachable_new: "reachable Sudoku_new"
| reachable_string:
    "reachable s \<Longrightarrow> read_puzzle_from_string s str = Inr (b, s') \<Longrightarrow> reachable s'"
| reachable_file:
    "reachable s \<Longrightarrow> read_puzzle_from_file s f = Inr (b, s') \<Longrightarrow> reachable s'"
| reachable_colorability:
    "reachable s \<Longrightarrow> solve_colorability_style s = Inr s' \<Longrightarrow> reachable s'"
| reachable_bruteforce:
    "reachable s \<Longrightarrow> solve_bruteforce_style s = Inr s' \<Longrightarrow> reachable s'"
| reachable_singular:
    "reachable s \<Longrightarrow> singular s = Inr (r, s') \<Longrightarrow> reachable s'"

lemma parse_puzzle_keeps_shape:
  assumes "parse_puzzle s f = Inr (b, s')" "grid_inv (grid s)" "square (grid s)"
  shows "grid_inv (grid s') \<and> square (grid s')"
proof -
  obtain f' line where gl: "getline f [] = (f', line)" by (cases "getline f []")
  define k where "k = length (split line)"
  define g0 where "g0 = Grid_reset (grid s) k"
  define bad where "bad \<longleftrightarrow> k = 0 \<or> line = []
      \<or> (isqrt k * isqrt k \<noteq> k \<and> (isqrt k + 1) * (isqrt k + 1) \<noteq> k) \<or> k > 64"
  have pp: "parse_puzzle s f =
      (if bad then Inr (False, s)
       else (case insert_row g0 (split line) 0 of
               Inl e \<Rightarrow> Inl e
             | Inr (False, g) \<Rightarrow> Inr (False, s\<lparr>grid := g\<rparr>)
             | Inr (True, g) \<Rightarrow>
                 (case parse_rows g f' line k 1 of
                    Inl e \<Rightarrow> Inl e
                  | Inr (b, g') \<Rightarrow> Inr (b, s\<lparr>grid := g'\<rparr>))))"
    unfolding parse_puzzle_def gl bad_def k_def g0_def by (auto simp: Let_def)
  show ?thesis
  proof (cases bad)
    case True
    then have "s' = s" using assms(1) pp by simp
    then show ?thesis using assms(2,3) by simp
  next
    case False
    then have nb: "\<not> (k = 0 \<or> line = []
      \<or> (isqrt k * isqrt k \<noteq> k \<and> (isqrt k + 1) * (isqrt k + 1) \<noteq> k) \<or> k > 64)"
      unfolding bad_def .
    have chk: "0 < k" "\<not> (isqrt k * isqrt k \<noteq> k \<and> (isqrt k + 1) * (isqrt k + 1) \<noteq> k)"
    proof -
      show "0 < k" using nb by (cases k) auto
      show "\<not> (isqrt k * isqrt k \<noteq> k \<and> (isqrt k + 1) * (isqrt k + 1) \<noteq> k)"
        using nb by blast
    qed
    have sq: "n_root k * n_root k = k" using perfect_square_check [OF chk(2)] .
    have i0: "grid_inv g0" "Grid_n g0 = k" by (simp_all add: g0_def grid_inv_reset)
    obtain b1 g1 where r0: "insert_row g0 (split line) 0 = Inr (b1, g1)"
      using assms(1) pp False by (auto split: sum.splits)
    have row0: "grid_inv g1 \<and> Grid_n g1 = k"
      using insert_row_loop_inv [of g0 "split line" 0 0 b1 g1] r0 i0 chk(1)
      by (simp add: insert_row_def)
    show ?thesis
    proof (cases b1)
      case b1: False
      then have "s' = s\<lparr>grid := g1\<rparr>" using assms(1) pp False r0 by simp
      then show ?thesis using row0 sq by (simp add: square_def)
    next
      case b1: True
      then obtain g' where rs: "parse_rows g1 f' line k 1 = Inr (b, g')"
        and e: "s' = s\<lparr>grid := g'\<rparr>"
        using assms(1) pp False r0 by (auto split: sum.splits)
      have "grid_inv g' \<and> Grid_n g' = k" using parse_rows_inv [OF rs] row0 by simp
      then show ?thesis using e sq by (simp add: square_def)
    qed
  qed
qed

lemma color_node_keeps_shape:
  assumes "grid_inv g"
  shows "grid_inv (snd (color_node g cx cy)) \<and> Grid_n (snd (color_node g cx cy)) = Grid_n g"
proof (cases "fst (color_node g cx cy)")
  case True
  then show ?thesis
    using color_sound(1) [OF assms, of cx cy] by (simp add: solved_from_def extends_def)
next
  case False
  then show ?thesis using color_frame(1) [of g cx cy] assms by simp
qed

lemma bruteforce_node_keeps_shape:
  assumes "grid_inv g"
  shows "grid_inv (snd (bruteforce_node g cx cy))
    \<and> Grid_n (snd (bruteforce_node g cx cy)) = Grid_n g"
proof (cases "fst (bruteforce_node g cx cy)")
  case True
  then show ?thesis
    using bruteforce_sound(1) [OF assms, of cx cy] by (simp add: solved_from_def extends_def)
next
  case False
  then show ?thesis using bruteforce_frame(1) [of g cx cy] assms by simp
qed

lemma reachable_shape: "reachable s \<Longrightarrow> grid_inv (grid s) \<and> square (grid s)"
proof (induction rule: reachable.induct)
  case reachable_new
  show ?case by code_simp
next
  case (reachable_string s str b s')
  then obtain s1 b1 where "parse_puzzle s (stringstream str) = Inr (b1, s1)"
    and "grid s' = grid s1"
    by (auto simp: read_puzzle_from_string_def split: sum.splits prod.splits bool.splits if_splits)
  then show ?case using parse_puzzle_keeps_shape reachable_string.IH by metis
next
  case (reachable_file s f b s')
  then obtain s1 b1 where "parse_puzzle s f = Inr (b1, s1)" and "grid s' = grid s1"
    by (auto simp: read_puzzle_from_file_def split: sum.splits prod.splits bool.splits if_splits)
  then show ?case using parse_puzzle_keeps_shape reachable_file.IH by metis
next
  case (reachable_colorability s s')
  then have "s' = s\<lparr>grid := snd (color_node (grid s) 0 0)\<rparr>"
    by (auto simp: solve_colorability_style_def split: if_splits)
  then show ?case
    using color_node_keeps_shape [of "grid s" 0 0] reachable_colorability.IH
    by (simp add: square_def)
next
  case (reachable_bruteforce s s')
  then have "s' = s\<lparr>grid := snd (bruteforce_node (grid s) 0 0)\<rparr>"
    by (auto simp: solve_bruteforce_style_def split: if_splits)
  then show ?case
    using bruteforce_node_keeps_shape [of "grid s" 0 0] reachable_bruteforce.IH
    by (simp add: square_def)
next
  case (reachable_singular s r s')
  then have "s' = s" using singular_frame(1) [of "grid s" False 0 0]
    by (auto simp: singular_def split: if_splits prod.splits)
  then show ?case using reachable_singular.IH by simp
qed

section \<open>The wide undetermined boards are loaded\<close>

lemma cell_undetermined_board:
  "x < k \<Longrightarrow> y < k \<Longrightarrow> cell (undetermined_board k) x y = -1"
  by (simp add: cell_eq undetermined_board_def)

lemma partial_loop_undetermined: "\<forall>a\<in>set as. a = -1 \<Longrightarrow> partial_loop m as"
  by (induction m as rule: partial_loop.induct) auto

lemma undetermined_board_partial:
  assumes "n_root k * n_root k = k"
  shows "is_good_partial_board (undetermined_board k)"
proof -
  let ?g = "undetermined_board k"
  let ?r = "n_root k"
  have n: "Grid_n ?g = k" by (simp add: undetermined_board_def Grid_n_def)
  have sq: "square ?g" using assms n by (simp add: square_def)
  have row: "is_good_partial_row ?g y" if "y < k" for y
    unfolding is_good_partial_row_def
    by (rule partial_loop_undetermined)
      (use that n in \<open>auto simp: row_cells_def cell_undetermined_board\<close>)
  have col: "is_good_partial_column ?g x" if "x < k" for x
    unfolding is_good_partial_column_def
    by (rule partial_loop_undetermined)
      (use that n in \<open>auto simp: column_cells_def cell_undetermined_board\<close>)
  have blk: "is_good_partial_block ?g (X * ?r) (Y * ?r)" if "X < ?r" "Y < ?r" for X Y
    unfolding is_good_partial_block_def
  proof (rule partial_loop_undetermined, rule ballI)
    fix a assume "a \<in> set (block_cells ?g (X * ?r) (Y * ?r))"
    then obtain xo yo where o: "xo < ?r" "yo < ?r" "a = cell ?g (X * ?r + xo) (Y * ?r + yo)"
      by (auto simp: block_cells_product n)
    have "X * ?r + xo < k" "Y * ?r + yo < k"
      using block_reads_in_range [OF sq] that o n by auto
    then show "a = -1" using o(3) by (simp add: cell_undetermined_board)
  qed
  show ?thesis using row col blk n by (simp add: is_good_partial_board_def list_all_iff)
qed

lemma undetermined_board_ok:
  assumes "1 \<le> k" "k \<le> 64" "isqrt k * isqrt k = k"
  shows "board_ok (undetermined_board k)"
    and "is_good_partial_board (undetermined_board k)"
proof -
  have r: "n_root k * n_root k = k"
    using perfect_square_check [of k] assms(3) by simp
  have n: "Grid_n (undetermined_board k) = k" by (simp add: undetermined_board_def Grid_n_def)
  have "grid_inv (undetermined_board k)"
    by (simp add: grid_inv_def undetermined_board_def list_all_iff)
  then show "board_ok (undetermined_board k)"
    using assms r n by (simp add: board_ok_def square_def cell_ok_def cell_undetermined_board)
  show "is_good_partial_board (undetermined_board k)" using r by (rule undetermined_board_partial)
qed

lemma wide_undetermined_board_loads:
  "read_puzzle_from_string Sudoku_new
      (Sudoku_to_s \<lparr>grid = undetermined_board 36, status_ok = True\<rparr>)
    = Inr (True, \<lparr>grid = undetermined_board 36, status_ok = True\<rparr>)"
proof -
  have i: "isqrt 36 * isqrt 36 = 36" by code_simp
  have "read_puzzle_from_string Sudoku_new
      (Sudoku_to_s \<lparr>grid = undetermined_board 36, status_ok = True\<rparr>)
    = Inr (True, Sudoku_new\<lparr>grid := grid \<lparr>grid = undetermined_board 36, status_ok = True\<rparr>,
        status_ok := True\<rparr>)"
    by (rule round_trip_board_ok) (use undetermined_board_ok [of 36] i in \<open>simp_all add: validate_def\<close>)
  then show ?thesis by (simp add: Sudoku_new_def)
qed

section \<open>The full check above the width of the shift\<close>
lemma color_bit_same_count: "(a - 1) mod 32 = (b - 1) mod 32 \<Longrightarrow> color_bit a = color_bit b"
  by (simp add: color_bit_def shl_int_def)

lemma good_loop_distinct_counts:
  "good_loop vm m as \<Longrightarrow> distinct (map (\<lambda>a. (a - 1) mod 32) as)"
proof (induction vm m as rule: good_loop.induct)
  case (1 valid_mask msk)
  then show ?case by simp
next
  case (2 valid_mask msk a as)
  then have t: "good_loop valid_mask (msk OR color_bit a) as" by (auto split: if_splits)
  have "(a - 1) mod 32 \<notin> (\<lambda>a. (a - 1) mod 32) ` set as"
  proof
    assume "(a - 1) mod 32 \<in> (\<lambda>a. (a - 1) mod 32) ` set as"
    then obtain b where b: "b \<in> set as" "(a - 1) mod 32 = (b - 1) mod 32" by auto
    have "(msk OR color_bit a) AND color_bit b = 0" using good_loop_elem [OF t b(1)] by blast
    then have "color_bit a AND color_bit b = 0" using and_or_zero by blast
    then show False using color_bit_nonzero [of a] color_bit_same_count [OF b(2)] by simp
  qed
  then show ?case using "2.IH" t "2.prems" by (auto split: if_splits)
qed

lemma good_loop_length: "good_loop vm m as \<Longrightarrow> length as \<le> 32"
proof -
  assume "good_loop vm m as"
  then have d: "distinct (map (\<lambda>a. (a - 1) mod 32) as)" by (rule good_loop_distinct_counts)
  have "set (map (\<lambda>a. (a - 1) mod 32) as) \<subseteq> {0..31::int}" by auto
  then have "card (set (map (\<lambda>a. (a - 1) mod 32) as)) \<le> card {0..31::int}"
    by (rule card_mono [rotated]) simp
  then show ?thesis using distinct_card [OF d] by simp
qed

lemma wide_never_good:
  assumes "32 < Grid_n g"
  shows "\<not> is_good_board g"
proof
  assume "is_good_board g"
  then have "is_good_row g 0" using assms by (simp add: good_board_row)
  then have "length (row_cells g 0) \<le> 32" unfolding is_good_row_def by (rule good_loop_length)
  then show False using assms by (simp add: row_cells_def)
qed

lemma singular_wide_false:
  assumes "status_ok s" "grid_inv (grid s)" "square (grid s)" "32 < Grid_n (grid s)"
  shows "singular s = Inr (False, s)"
    and "fst (singular_decider (grid s) False 0 0) = 0"
proof -
  have n: "\<not> is_good_board b" if "completion (grid s) b" for b
    using that assms(4) wide_never_good [of b] by (simp add: completion_def extends_def)
  obtain r where r: "singular s = Inr (r, s)"
    "r \<longleftrightarrow> (\<exists>!b. completion (grid s) b \<and> is_good_board b)"
    using singular_by_full_check [OF assms(1-3)] by blast
  then show "singular s = Inr (False, s)" using n by auto
  have "sols (grid s) = {}" using n by (auto simp: sols_def solved_from_iff)
  then show "fst (singular_decider (grid s) False 0 0) = 0"
    using singular_correct(1) [OF assms(2,3) scanned_origin, of False] by (simp add: acc_def)
qed

section \<open>Full validity in the words of the specification\<close>
text \<open>
  The specification words full validity as: every row, column and block contains each
  value of \<open>[1, N]\<close> exactly once, and no cell is undetermined. \<open>full_validity\<close> follows
  these words, to be compared with \<open>is_good_board\<close>, the check as the validator computes
  it with its masks.
\<close>

definition each_value_once :: "nat \<Rightarrow> int list \<Rightarrow> bool" where
  "each_value_once k as \<longleftrightarrow> list_all (\<lambda>v. count_list as v = 1) [1..int k]"

definition full_validity :: "Grid \<Rightarrow> bool" where
  "full_validity g \<longleftrightarrow>
     list_all (\<lambda>y. each_value_once (Grid_n g) (row_cells g y)) [0..<Grid_n g]
     \<and> list_all (\<lambda>x. each_value_once (Grid_n g) (column_cells g x)) [0..<Grid_n g]
     \<and> list_all (\<lambda>x. list_all (\<lambda>y. each_value_once (Grid_n g)
                         (block_cells g (x * n_root (Grid_n g)) (y * n_root (Grid_n g))))
                     [0..<n_root (Grid_n g)]) [0..<n_root (Grid_n g)]
     \<and> list_all (\<lambda>y. list_all (\<lambda>a. a \<noteq> -1) (row_cells g y)) [0..<Grid_n g]"

lemma count_list_distinct: "distinct as \<Longrightarrow> v \<in> set as \<Longrightarrow> count_list as v = 1"
  by (induction as) (auto simp: count_list_0_iff)

lemma each_value_once_iff:
  assumes "length as = k"
  shows "each_value_once k as \<longleftrightarrow> distinct as \<and> set as = {1..int k}"
proof
  assume e: "each_value_once k as"
  have sub: "{1..int k} \<subseteq> set as"
  proof
    fix v assume "v \<in> {1..int k}"
    then have "count_list as v = 1" using e by (simp add: each_value_once_def list_all_iff)
    then show "v \<in> set as" by (cases "v \<in> set as") auto
  qed
  have "card (set as) \<le> length as" by (rule card_length)
  moreover have "card {1..int k} \<le> card (set as)" using sub by (intro card_mono) simp_all
  moreover have "card {1..int k} = k" by simp
  ultimately have c: "card (set as) = k" using assms by simp
  then have ceq: "card {1..int k} = card (set as)" by simp
  have "{1..int k} = set as" by (rule card_subset_eq [OF _ sub ceq]) simp
  then have "set as = {1..int k}" by simp
  moreover have "distinct as" using c assms by (simp add: card_distinct)
  ultimately show "distinct as \<and> set as = {1..int k}" by simp
next
  assume "distinct as \<and> set as = {1..int k}"
  then show "each_value_once k as"
    by (simp add: each_value_once_def list_all_iff count_list_distinct)
qed

lemma full_validity_iff:
  assumes "square g"
  shows "full_validity g \<longleftrightarrow>
     (\<forall>y. y < Grid_n g \<longrightarrow>
        distinct (row_cells g y) \<and> set (row_cells g y) = {1..int (Grid_n g)})
     \<and> (\<forall>x. x < Grid_n g \<longrightarrow>
        distinct (column_cells g x) \<and> set (column_cells g x) = {1..int (Grid_n g)})
     \<and> (\<forall>X Y. X < n_root (Grid_n g) \<and> Y < n_root (Grid_n g) \<longrightarrow>
        distinct (block_cells g (X * n_root (Grid_n g)) (Y * n_root (Grid_n g)))
        \<and> set (block_cells g (X * n_root (Grid_n g)) (Y * n_root (Grid_n g)))
            = {1..int (Grid_n g)})"
proof -
  let ?n = "Grid_n g"
  let ?r = "n_root ?n"
  have rr: "?r * ?r = ?n" using assms by (simp add: square_def)
  have row: "each_value_once ?n (row_cells g y)
      \<longleftrightarrow> distinct (row_cells g y) \<and> set (row_cells g y) = {1..int ?n}" for y
    by (rule each_value_once_iff) (simp add: row_cells_def)
  have col: "each_value_once ?n (column_cells g x)
      \<longleftrightarrow> distinct (column_cells g x) \<and> set (column_cells g x) = {1..int ?n}" for x
    by (rule each_value_once_iff) (simp add: column_cells_def)
  have blk: "each_value_once ?n (block_cells g x y)
      \<longleftrightarrow> distinct (block_cells g x y) \<and> set (block_cells g x y) = {1..int ?n}" for x y
    by (rule each_value_once_iff) (simp add: block_cells_product rr)
  have no: "list_all (\<lambda>y. list_all (\<lambda>a. a \<noteq> -1) (row_cells g y)) [0..<?n]"
    if "\<forall>y. y < ?n \<longrightarrow> set (row_cells g y) = {1..int ?n}"
    using that by (auto simp: list_all_iff)
  show ?thesis
    unfolding full_validity_def row col blk using no by (auto simp: list_all_iff)
qed

lemma is_good_board_is_full_validity:
  assumes "square g" "Grid_n g \<le> 30"
    and "\<forall>x y. x < Grid_n g \<and> y < Grid_n g \<longrightarrow> cell_ok g (cell g x y)"
  shows "is_good_board g \<longleftrightarrow> full_validity g"
  unfolding full_validity_iff [OF assms(1)] using assms by (rule is_good_board_small_side)

section \<open>The uniqueness check below the width of the shift; a wide board with one clue\<close>
lemma completion_full_validity:
  assumes "square g" "Grid_n g \<le> 30"
    and "\<forall>x y. x < Grid_n g \<and> y < Grid_n g \<longrightarrow> cell_ok g (cell g x y)"
    and "completion g b"
  shows "is_good_board b \<longleftrightarrow> full_validity b"
proof (rule is_good_board_is_full_validity)
  have n: "Grid_n b = Grid_n g" using assms(4) by (simp add: completion_def extends_def)
  show "square b" using assms(1) n by (simp add: square_def)
  show "Grid_n b \<le> 30" using assms(2) n by simp
  show "\<forall>x y. x < Grid_n b \<and> y < Grid_n b \<longrightarrow> cell_ok b (cell b x y)"
  proof (intro allI impI)
    fix x y assume r: "x < Grid_n b \<and> y < Grid_n b"
    have "cell b x y = cell g x y
        \<or> (cell g x y = -1 \<and> 1 \<le> cell b x y \<and> cell b x y \<le> int (Grid_n g))"
      using assms(4) by (simp add: completion_def extends_def)
    moreover have "cell_ok g (cell g x y)" using assms(3) r n by simp
    ultimately show "cell_ok b (cell b x y)" using n by (auto simp: cell_ok_def)
  qed
qed

lemma singular_small_side:
  assumes "status_ok s" "grid_inv (grid s)" "square (grid s)" "Grid_n (grid s) \<le> 30"
    and "\<forall>x y. x < Grid_n (grid s) \<and> y < Grid_n (grid s) \<longrightarrow> cell_ok (grid s) (cell (grid s) x y)"
  shows "\<exists>r. singular s = Inr (r, s)
            \<and> (r \<longleftrightarrow> (\<exists>!b. completion (grid s) b \<and> full_validity b))"
proof -
  have e: "completion (grid s) b \<and> is_good_board b \<longleftrightarrow> completion (grid s) b \<and> full_validity b"
    for b
    using completion_full_validity [OF assms(3,4,5), of b] by blast
  obtain r where r: "singular s = Inr (r, s)"
    "r \<longleftrightarrow> (\<exists>!b. completion (grid s) b \<and> is_good_board b)"
    using singular_by_full_check [OF assms(1-3)] by blast
  have "r \<longleftrightarrow> (\<exists>!b. completion (grid s) b \<and> full_validity b)"
    unfolding r(2) e ..
  then show ?thesis using r(1) by blast
qed

lemma partial_loop_one_clue:
  "distinct ps \<Longrightarrow> \<forall>p\<in>set ps. \<forall>q\<in>set ps. f p \<noteq> -1 \<and> f q \<noteq> -1 \<longrightarrow> p = q \<Longrightarrow>
   \<forall>p\<in>set ps. f p \<noteq> -1 \<longrightarrow> m AND color_bit (f p) = 0 \<Longrightarrow> partial_loop m (map f ps)"
proof (induction ps arbitrary: m)
  case Nil
  then show ?case by simp
next
  case (Cons p ps)
  show ?case
  proof (cases "f p = -1")
    case True
    then show ?thesis using Cons by simp
  next
    case False
    have "\<forall>q\<in>set ps. f q = -1" using Cons.prems(1,2) False by auto
    then have "partial_loop (m OR color_bit (f p)) (map f ps)"
      by (intro partial_loop_undetermined) simp
    then show ?thesis using False Cons.prems(3) by simp
  qed
qed

definition board_wide_clue :: Grid where
  "board_wide_clue = put (undetermined_board 36) 3 3 36"

lemma board_wide_clue_cell:
  assumes "x < 36" "y < 36"
  shows "cell board_wide_clue x y = (if x = 3 \<and> y = 3 then 36 else -1)"
proof -
  have i: "grid_inv (undetermined_board 36)"
    by (simp add: grid_inv_def undetermined_board_def list_all_iff)
  have n: "Grid_n (undetermined_board 36) = 36" by (simp add: undetermined_board_def Grid_n_def)
  have "cell (put (undetermined_board 36) 3 3 36) x y
      = (if x = 3 \<and> y = 3 then 36 else cell (undetermined_board 36) x y)"
    by (rule cell_put_in [OF i]) (simp_all add: n)
  then show ?thesis
    using assms cell_undetermined_board [of x 36 y] by (simp add: board_wide_clue_def)
qed

lemma board_wide_clue_shape: "grid_inv board_wide_clue \<and> Grid_n board_wide_clue = 36"
  unfolding board_wide_clue_def
  by (auto simp: put_eq grid_inv_def undetermined_board_def Grid_n_def list_all_length nth_list_update)

lemma board_wide_clue_ok: "board_ok board_wide_clue \<and> is_good_partial_board board_wide_clue"
proof -
  let ?g = board_wide_clue
  have n: "Grid_n ?g = 36" and inv: "grid_inv ?g" using board_wide_clue_shape by simp_all
  have i: "isqrt 36 * isqrt 36 = 36" by code_simp
  have r: "n_root 36 = 6" by code_simp
  have sq: "square ?g" using n r by (simp add: square_def)
  have ok: "board_ok ?g"
    using inv n sq i by (simp add: board_ok_def cell_ok_def board_wide_clue_cell)
  have row: "is_good_partial_row ?g y" if "y < 36" for y
    unfolding is_good_partial_row_def row_cells_def
    by (rule partial_loop_one_clue) (use that n in \<open>auto simp: board_wide_clue_cell\<close>)
  have col: "is_good_partial_column ?g x" if "x < 36" for x
    unfolding is_good_partial_column_def column_cells_def
    by (rule partial_loop_one_clue) (use that n in \<open>auto simp: board_wide_clue_cell\<close>)
  have blk: "is_good_partial_block ?g (X * 6) (Y * 6)" if "X < 6" "Y < 6" for X Y
    unfolding is_good_partial_block_def block_cells_product
  proof (rule partial_loop_one_clue)
    show "distinct (List.product [0..<n_root (Grid_n ?g)] [0..<n_root (Grid_n ?g)])"
      by (simp add: distinct_product)
    have c: "cell ?g (X * 6 + xo) (Y * 6 + yo)
        = (if X * 6 + xo = 3 \<and> Y * 6 + yo = 3 then 36 else -1)" if "xo < 6" "yo < 6" for xo yo
      by (rule board_wide_clue_cell) (use that \<open>X < 6\<close> \<open>Y < 6\<close> in auto)
    show "\<forall>p\<in>set (List.product [0..<n_root (Grid_n ?g)] [0..<n_root (Grid_n ?g)]).
       \<forall>q\<in>set (List.product [0..<n_root (Grid_n ?g)] [0..<n_root (Grid_n ?g)]).
          (case p of (y_off, x_off) \<Rightarrow> cell ?g (X * 6 + x_off) (Y * 6 + y_off)) \<noteq> -1
          \<and> (case q of (y_off, x_off) \<Rightarrow> cell ?g (X * 6 + x_off) (Y * 6 + y_off)) \<noteq> -1
          \<longrightarrow> p = q"
      using c by (auto simp: n r split: if_splits)
    show "\<forall>p\<in>set (List.product [0..<n_root (Grid_n ?g)] [0..<n_root (Grid_n ?g)]).
       (case p of (y_off, x_off) \<Rightarrow> cell ?g (X * 6 + x_off) (Y * 6 + y_off)) \<noteq> -1
       \<longrightarrow> 0 AND color_bit (case p of (y_off, x_off) \<Rightarrow> cell ?g (X * 6 + x_off) (Y * 6 + y_off)) = 0"
      by simp
  qed
  have "is_good_partial_board ?g"
    using row col blk by (simp add: is_good_partial_board_def list_all_iff n r)
  then show ?thesis using ok by simp
qed

lemma board_wide_clue_loads:
  "read_puzzle_from_string Sudoku_new (Sudoku_to_s \<lparr>grid = board_wide_clue, status_ok = True\<rparr>)
    = Inr (True, \<lparr>grid = board_wide_clue, status_ok = True\<rparr>)"
proof -
  have "read_puzzle_from_string Sudoku_new
      (Sudoku_to_s \<lparr>grid = board_wide_clue, status_ok = True\<rparr>)
    = Inr (True, Sudoku_new\<lparr>grid := grid \<lparr>grid = board_wide_clue, status_ok = True\<rparr>,
        status_ok := True\<rparr>)"
    by (rule round_trip_board_ok) (use board_wide_clue_ok in \<open>simp_all add: validate_def\<close>)
  then show ?thesis by (simp add: Sudoku_new_def)
qed

section \<open>Claim about the uniqueness check\<close>
definition text_bad_last_token :: string where
  "text_bad_last_token = ''4 2 3 1'' @ [newline] @ ''3 1 4 2'' @ [newline] @ ''2 4 1 3'' @ [newline]
     @ ''1 3 2 x''"

definition board_stale :: Grid where
  "board_stale =
     \<lparr>matrix = [[4, 2, 3, 1], [3, 1, 4, 2], [2, 4, 1, 3], [1, 3, 2, 36]], dim = 4\<rparr>"

lemma stale_board_no_completion: "\<not> (\<exists>b. completion board_stale b \<and> full_validity b)"
proof
  assume "\<exists>b. completion board_stale b \<and> full_validity b"
  then obtain b where b: "completion board_stale b" "full_validity b" by blast
  have n: "Grid_n b = 4" using b(1) by (simp add: completion_def extends_def board_stale_def Grid_n_def)
  have r: "n_root 4 = 2" by code_simp
  have sq: "square b" using n r by (simp add: square_def)
  have c: "cell board_stale 3 3 = 36" by code_simp
  have "cell b 3 3 = cell board_stale 3 3
      \<or> (cell board_stale 3 3 = -1 \<and> 1 \<le> cell b 3 3 \<and> cell b 3 3 \<le> int (Grid_n board_stale))"
    using b(1) by (simp add: completion_def extends_def)
  then have v: "cell b 3 3 = 36" using c by simp
  have "set (row_cells b 3) = {1..int (Grid_n b)}"
    using b(2) n unfolding full_validity_iff [OF sq] by simp
  moreover have "cell b 3 3 \<in> set (row_cells b 3)" using n by (simp add: row_cells_def)
  ultimately show False using v n by simp
qed

text \<open>
  C1. A puzzle object is loaded with the 36 by 36 board whose only determined cell is the
  value 36 at \<open>(3, 3)\<close>; the load returns true. A second load of a 4 by 4 text whose last
  token is \<open>x\<close> returns false: \<open>Grid_reset\<close> has kept the corner of the old board, the rows
  read before the bad token are stored, and the status is still ok. The object now holds a
  4 by 4 board with no undetermined cell and the value 36 at \<open>(3, 3)\<close>, which is not full
  validity; \<open>singular\<close> answers true on it, where no completion exists.
\<close>

theorem singular_true_without_completion:
  "read_puzzle_from_string Sudoku_new (Sudoku_to_s \<lparr>grid = board_wide_clue, status_ok = True\<rparr>)
     = Inr (True, \<lparr>grid = board_wide_clue, status_ok = True\<rparr>)
   \<and> read_puzzle_from_string \<lparr>grid = board_wide_clue, status_ok = True\<rparr> text_bad_last_token
     = Inr (False, \<lparr>grid = board_stale, status_ok = True\<rparr>)
   \<and> singular \<lparr>grid = board_stale, status_ok = True\<rparr>
     = Inr (True, \<lparr>grid = board_stale, status_ok = True\<rparr>)
   \<and> find_unknown board_stale 0 0 = None
   \<and> \<not> full_validity board_stale"
proof (intro conjI)
  show "read_puzzle_from_string Sudoku_new
      (Sudoku_to_s \<lparr>grid = board_wide_clue, status_ok = True\<rparr>)
     = Inr (True, \<lparr>grid = board_wide_clue, status_ok = True\<rparr>)"
    by (rule board_wide_clue_loads)
  show "read_puzzle_from_string \<lparr>grid = board_wide_clue, status_ok = True\<rparr> text_bad_last_token
     = Inr (False, \<lparr>grid = board_stale, status_ok = True\<rparr>)"
    by code_simp
  show "singular \<lparr>grid = board_stale, status_ok = True\<rparr>
     = Inr (True, \<lparr>grid = board_stale, status_ok = True\<rparr>)"
    by code_simp
  show "find_unknown board_stale 0 0 = None" by code_simp
  show "\<not> full_validity board_stale" by code_simp
qed

end
